theory Spec2Isabelle
  imports Main "HOL-Library.Word"
begin

unbundle bit_operations_syntax

section \<open>Exceptions, strings and constants of ut2hash.py\<close>

text \<open>
  Every exception that the modelled part of the program can raise is a value of
  \<open>exn\<close>; a function that can raise returns \<open>exn + 'a\<close> with \<open>Inl\<close> for the
  exception. \<open>ZlibError\<close> is \<open>zlib.error\<close>, \<open>OSError\<close> covers FileNotFoundError and
  IsADirectoryError, \<open>UnboundLocalError\<close> is the read of a local variable that
  was never assigned. \<open>NotModelled\<close> is no exception of Python: it marks a call
  of a library function with arguments that this model does not cover.
\<close>

datatype exn =
    AssertionError
  | IntegrityError
  | OperationalError
  | ZlibError
  | ValueError
  | OSError
  | TypeError
  | UnboundLocalError
  | NotModelled

type_synonym byte = "8 word"

text \<open>
  Python strings are modelled as \<open>string\<close>, one \<open>char\<close> per character, and
  \<open>str.casefold\<close> as the lower-casing of the ASCII letters.
\<close>

definition casefold_char :: "char \<Rightarrow> char" where
  "casefold_char c =
     (if 65 \<le> (of_char c :: nat) \<and> (of_char c :: nat) \<le> 90
      then char_of ((of_char c :: nat) + 32) else c)"

definition casefold :: "string \<Rightarrow> string" where
  "casefold s = map casefold_char s"

definition endswith :: "'a list \<Rightarrow> 'a list \<Rightarrow> bool" where
  "endswith s suf \<longleftrightarrow> length suf \<le> length s \<and> drop (length s - length suf) s = suf"

definition PERIODICALLY_COMMIT :: int where
  "PERIODICALLY_COMMIT = 100"

section \<open>class Database: the hashes table behind an sqlite3 connection\<close>

text \<open>
  A row of \<open>hashes(id INTEGER PRIMARY KEY, filename TEXT, size INTEGER, md5 TEXT)\<close>.
\<close>

record row =
  row_id :: int
  row_filename :: string
  row_size :: int
  row_md5 :: string

text \<open>
  The state of a \<open>Database\<close> object. \<open>disk\<close> is the committed content of the
  database file and \<open>view\<close> what the connection sees (committed content plus
  its own uncommitted changes); \<open>None\<close> means that the table does not exist.
  \<open>in_transaction\<close> is sqlite3's flag of an open transaction: the module opens
  one implicitly before INSERT and DELETE, and a statement executed outside a
  transaction is committed at once. \<open>count\<close> and \<open>force_casefold\<close> are the
  attributes of the same names.
\<close>

record database =
  disk :: "row list option"
  view :: "row list option"
  in_transaction :: bool
  count :: int
  force_casefold :: bool

text \<open>\<open>Database.__init__\<close>: connect to the file whose committed content is \<open>d\<close>.\<close>

definition connect :: "row list option \<Rightarrow> database" where
  "connect d = \<lparr>disk = d, view = d, in_transaction = False, count = 0, force_casefold = False\<rparr>"

text \<open>\<open>conn.commit()\<close>, reached through \<open>Database.commit\<close>.\<close>

definition commit :: "database \<Rightarrow> database" where
  "commit db = db\<lparr>disk := view db, in_transaction := False\<rparr>"

text \<open>A statement that is not INSERT or DELETE and runs outside a transaction is durable at once.\<close>

definition autocommit :: "database \<Rightarrow> database" where
  "autocommit db = (if in_transaction db then db else db\<lparr>disk := view db\<rparr>)"

definition exec_drop_table :: "database \<Rightarrow> database" where
  "exec_drop_table db = autocommit (db\<lparr>view := None\<rparr>)"

definition exec_create_table :: "database \<Rightarrow> database" where
  "exec_create_table db =
     autocommit (db\<lparr>view := (case view db of None \<Rightarrow> Some [] | Some t \<Rightarrow> Some t)\<rparr>)"

text \<open>\<open>SELECT MAX(id) FROM hashes\<close>: NULL (\<open>None\<close>) on an empty table.\<close>

definition max_id :: "row list \<Rightarrow> int option" where
  "max_id t = (case t of [] \<Rightarrow> None | r # rs \<Rightarrow> Some (fold max (map row_id rs) (row_id r)))"

definition exec_select_max_id :: "database \<Rightarrow> exn + int option" where
  "exec_select_max_id db = (case view db of None \<Rightarrow> Inl OperationalError | Some t \<Rightarrow> Inr (max_id t))"

text \<open>
  \<open>INSERT INTO hashes VALUES (?, ?, ?, ?)\<close>: fails when the table is missing
  and when the primary key is already taken.
\<close>

definition exec_insert :: "row \<Rightarrow> database \<Rightarrow> exn + database" where
  "exec_insert r db =
     (case view db of
        None \<Rightarrow> Inl OperationalError
      | Some t \<Rightarrow>
          if row_id r \<in> set (map row_id t) then Inl IntegrityError
          else Inr (db\<lparr>view := Some (t @ [r]), in_transaction := True\<rparr>))"

text \<open>
  \<open>SELECT MAX(id) AS maxid FROM hashes GROUP BY filename, md5\<close>: the columns
  compare with the BINARY collation, that is, as equal strings.
\<close>

definition same_group :: "row \<Rightarrow> row \<Rightarrow> bool" where
  "same_group r s \<longleftrightarrow> row_filename s = row_filename r \<and> row_md5 s = row_md5 r"

definition group_max :: "row list \<Rightarrow> row \<Rightarrow> int" where
  "group_max t r = fold max (map row_id (filter (same_group r) t)) (row_id r)"

definition select_group_max_ids :: "row list \<Rightarrow> int list" where
  "select_group_max_ids t = remdups (map (group_max t) t)"

text \<open>\<open>DELETE FROM hashes WHERE id NOT IN (SELECT MAX(id) ... GROUP BY filename, md5)\<close>.\<close>

definition delete_not_in_group_max :: "row list \<Rightarrow> row list" where
  "delete_not_in_group_max t = filter (\<lambda>r. row_id r \<in> set (select_group_max_ids t)) t"

definition exec_delete_duplicates :: "database \<Rightarrow> exn + database" where
  "exec_delete_duplicates db =
     (case view db of
        None \<Rightarrow> Inl OperationalError
      | Some t \<Rightarrow> Inr (db\<lparr>view := Some (delete_not_in_group_max t), in_transaction := True\<rparr>))"

text \<open>\<open>Database.initialize(delete)\<close>.\<close>

definition initialize :: "bool \<Rightarrow> database \<Rightarrow> exn + database" where
  "initialize delete db =
     (let db1 = (if delete then exec_drop_table db else db);
          db2 = exec_create_table db1
      in case exec_select_max_id db2 of
           Inl e \<Rightarrow> Inl e
         | Inr m \<Rightarrow> Inr (db2\<lparr>count := (case m of None \<Rightarrow> 0 | Some c \<Rightarrow> c) + 1\<rparr>))"

text \<open>\<open>Database.put(fn, size, md5)\<close>.\<close>

definition put :: "string \<Rightarrow> int \<Rightarrow> string \<Rightarrow> database \<Rightarrow> exn + database" where
  "put fn sz md5 db =
     (if length md5 \<noteq> 32 then Inl AssertionError
      else
        let fn' = (if force_casefold db then casefold fn else fn) in
        case exec_insert \<lparr>row_id = count db, row_filename = fn', row_size = sz, row_md5 = md5\<rparr> db of
          Inl e \<Rightarrow> Inl e
        | Inr db1 \<Rightarrow>
            let db2 = db1\<lparr>count := count db1 + 1\<rparr>
            in Inr (if count db2 mod PERIODICALLY_COMMIT = 0 then commit db2 else db2))"

text \<open>\<open>Database.remove_duplicates()\<close>.\<close>

definition remove_duplicates :: "database \<Rightarrow> exn + database" where
  "remove_duplicates db =
     (case exec_delete_duplicates db of Inl e \<Rightarrow> Inl e | Inr db1 \<Rightarrow> Inr (commit db1))"

text \<open>
  \<open>Database.close()\<close> commits and closes the connection; what is left is the
  content of the file.
\<close>

definition close :: "database \<Rightarrow> row list option" where
  "close db = disk (commit db)"

text \<open>
  A client of one \<open>Database\<close> object issues a sequence of calls; the run stops at
  the first exception. A session opens the file as \<open>HashGrabber.__init__\<close>
  does (\<open>Database(fn)\<close>, then \<open>initialize(delete=False)\<close>), runs its calls and
  closes; a lifetime of the store is a sequence of sessions on the same file.
  Each returns the ids given to the rows it inserted, in order.
\<close>

datatype db_call = Put string int string | Commit | RemoveDuplicates

fun run_calls :: "db_call list \<Rightarrow> database \<Rightarrow> exn + (int list \<times> database)" where
  "run_calls [] db = Inr ([], db)"
| "run_calls (Put fn sz md5 # cs) db =
     (case put fn sz md5 db of
        Inl e \<Rightarrow> Inl e
      | Inr db1 \<Rightarrow>
          (case run_calls cs db1 of Inl e \<Rightarrow> Inl e | Inr (ids, db2) \<Rightarrow> Inr (count db # ids, db2)))"
| "run_calls (Commit # cs) db = run_calls cs (commit db)"
| "run_calls (RemoveDuplicates # cs) db =
     (case remove_duplicates db of Inl e \<Rightarrow> Inl e | Inr db1 \<Rightarrow> run_calls cs db1)"

definition session :: "db_call list \<Rightarrow> row list option \<Rightarrow> exn + (int list \<times> row list option)" where
  "session cs d =
     (case initialize False (connect d) of
        Inl e \<Rightarrow> Inl e
      | Inr db \<Rightarrow>
          (case run_calls cs db of Inl e \<Rightarrow> Inl e | Inr (ids, db1) \<Rightarrow> Inr (ids, close db1)))"

fun lifetime :: "db_call list list \<Rightarrow> row list option \<Rightarrow> exn + (int list \<times> row list option)" where
  "lifetime [] d = Inr ([], d)"
| "lifetime (cs # css) d =
     (case session cs d of
        Inl e \<Rightarrow> Inl e
      | Inr (ids, d1) \<Rightarrow>
          (case lifetime css d1 of Inl e \<Rightarrow> Inl e | Inr (ids', d2) \<Rightarrow> Inr (ids @ ids', d2)))"

text \<open>
  What the file holds when the process dies right after the calls, without
  \<open>close()\<close>: the committed content only.
\<close>

definition power_loss :: "db_call list \<Rightarrow> row list option \<Rightarrow> exn + row list option" where
  "power_loss cs d =
     (case initialize False (connect d) of
        Inl e \<Rightarrow> Inl e
      | Inr db \<Rightarrow> (case run_calls cs db of Inl e \<Rightarrow> Inl e | Inr (ids, db1) \<Rightarrow> Inr (disk db1)))"

text \<open>The rows of a file content, and the id that \<open>initialize\<close> would hand out next on a table.\<close>

definition table_of :: "row list option \<Rightarrow> row list" where
  "table_of d = (case d of None \<Rightarrow> [] | Some t \<Rightarrow> t)"

definition next_free_id :: "row list \<Rightarrow> int" where
  "next_free_id t = (case max_id t of None \<Rightarrow> 1 | Some m \<Rightarrow> m + 1)"

text \<open>The row that \<open>put\<close> inserts under the id \<open>i\<close>.\<close>

definition inserted_row :: "database \<Rightarrow> string \<Rightarrow> int \<Rightarrow> string \<Rightarrow> int \<Rightarrow> row" where
  "inserted_row db fn sz md5 i =
     \<lparr>row_id = i, row_filename = (if force_casefold db then casefold fn else fn),
      row_size = sz, row_md5 = md5\<rparr>"

section \<open>zlib.decompress: RFC 1950 framing over RFC 1951 inflate\<close>

text \<open>
  The library call \<open>zlib.decompress(data, wbits, bufsize)\<close>, modelled by the
  formats it reads rather than by its C code. Every failure of the library is
  the one exception \<open>zlib.error\<close>, so the decoder below returns \<open>None\<close> for
  any of them (a truncated stream, an invalid block type, a bad code, a
  distance before the start of the output, a checksum mismatch). The bit
  stream of a byte sequence takes each byte from its least significant bit.
\<close>

definition bits_of_byte :: "byte \<Rightarrow> bool list" where
  "bits_of_byte b = [bit b 0, bit b 1, bit b 2, bit b 3, bit b 4, bit b 5, bit b 6, bit b 7]"

definition bits_of_bytes :: "byte list \<Rightarrow> bool list" where
  "bits_of_bytes bs = concat (map bits_of_byte bs)"

fun nat_of_bits :: "bool list \<Rightarrow> nat" where
  "nat_of_bits [] = 0"
| "nat_of_bits (b # bs) = (if b then 1 else 0) + 2 * nat_of_bits bs"

definition take_bits :: "nat \<Rightarrow> bool list \<Rightarrow> (nat \<times> bool list) option" where
  "take_bits n bits = (if length bits < n then None else Some (nat_of_bits (take n bits), drop n bits))"

fun bytes_of_bits :: "bool list \<Rightarrow> byte list" where
  "bytes_of_bits (b0 # b1 # b2 # b3 # b4 # b5 # b6 # b7 # bits) =
     of_nat (nat_of_bits [b0, b1, b2, b3, b4, b5, b6, b7]) # bytes_of_bits bits"
| "bytes_of_bits bits = []"

definition take_bytes :: "nat \<Rightarrow> bool list \<Rightarrow> (byte list \<times> bool list) option" where
  "take_bytes n bits =
     (if length bits < 8 * n then None
      else Some (bytes_of_bits (take (8 * n) bits), drop (8 * n) bits))"

text \<open>
  A Huffman code is given by the code length of each symbol (0: the symbol
  has no code). Codes of one length are consecutive values in symbol order, and
  the first code of a length continues from the last one of the length before
  (RFC 1951, 3.2.2). \<open>decode\<close> reads a code bit by bit, most significant bit
  first, through the lengths 1 to 15.
\<close>

definition syms_of_len :: "nat list \<Rightarrow> nat \<Rightarrow> nat list" where
  "syms_of_len lens l = filter (\<lambda>s. lens ! s = l) [0..<length lens]"

fun decode_from :: "nat list \<Rightarrow> nat list \<Rightarrow> nat \<Rightarrow> nat \<Rightarrow> bool list \<Rightarrow> (nat \<times> bool list) option" where
  "decode_from lens [] code first bits = None"
| "decode_from lens (l # ls) code first [] = None"
| "decode_from lens (l # ls) code first (b # bits) =
     (let code' = code + (if b then 1 else 0); syms = syms_of_len lens l
      in if code' < first + length syms then Some (syms ! (code' - first), bits)
         else decode_from lens ls (2 * code') (2 * (first + length syms)) bits)"

definition decode :: "nat list \<Rightarrow> bool list \<Rightarrow> (nat \<times> bool list) option" where
  "decode lens bits = decode_from lens [1, 2, 3, 4, 5, 6, 7, 8, 9, 10, 11, 12, 13, 14, 15] 0 0 bits"

text \<open>
  The code space left over by a set of lengths: negative when the set is
  over-subscribed, positive when it is incomplete, 0 when it is complete.
\<close>

definition code_space_left :: "nat list \<Rightarrow> int" where
  "code_space_left lens =
     fold (\<lambda>l left. 2 * left - int (length (syms_of_len lens l)))
       [1, 2, 3, 4, 5, 6, 7, 8, 9, 10, 11, 12, 13, 14, 15] 1"

text \<open>
  zlib accepts a literal/length or distance code that is complete, that has no
  code at all, or that is a single code of length 1; the code of the code
  lengths must be complete or empty.
\<close>

definition usable_code :: "nat list \<Rightarrow> bool" where
  "usable_code lens \<longleftrightarrow>
     (\<forall>l \<in> set lens. l = 0) \<or> code_space_left lens = 0 \<or>
     (0 < code_space_left lens \<and> (\<forall>l \<in> set lens. l \<le> 1))"

definition complete_code :: "nat list \<Rightarrow> bool" where
  "complete_code lens \<longleftrightarrow> (\<forall>l \<in> set lens. l = 0) \<or> code_space_left lens = 0"

definition lbase :: "nat list" where
  "lbase = [3, 4, 5, 6, 7, 8, 9, 10, 11, 13, 15, 17, 19, 23, 27, 31, 35, 43, 51, 59, 67, 83, 99,
            115, 131, 163, 195, 227, 258]"

definition lext :: "nat list" where
  "lext = [0, 0, 0, 0, 0, 0, 0, 0, 1, 1, 1, 1, 2, 2, 2, 2, 3, 3, 3, 3, 4, 4, 4, 4, 5, 5, 5, 5, 0]"

definition dbase :: "nat list" where
  "dbase = [1, 2, 3, 4, 5, 7, 9, 13, 17, 25, 33, 49, 65, 97, 129, 193, 257, 385, 513, 769, 1025,
            1537, 2049, 3073, 4097, 6145, 8193, 12289, 16385, 24577]"

definition dext :: "nat list" where
  "dext = [0, 0, 0, 0, 1, 1, 2, 2, 3, 3, 4, 4, 5, 5, 6, 6, 7, 7, 8, 8, 9, 9, 10, 10, 11, 11, 12,
           12, 13, 13]"

text \<open>Copy \<open>len\<close> bytes from \<open>dist\<close> bytes back, one at a time: the copy may overlap its own output.\<close>

fun copy_back :: "nat \<Rightarrow> nat \<Rightarrow> byte list \<Rightarrow> byte list" where
  "copy_back dist 0 out = out"
| "copy_back dist (Suc n) out = copy_back dist n (out @ [out ! (length out - dist)])"

lemma take_bits_length: "take_bits n bits = Some (v, rest) \<Longrightarrow> length rest \<le> length bits"
  by (auto simp: take_bits_def split: if_splits)

lemma take_bytes_length: "take_bytes n bits = Some (v, rest) \<Longrightarrow> length rest \<le> length bits"
  by (auto simp: take_bytes_def split: if_splits)

lemma decode_from_length:
  "decode_from lens ls code first bits = Some (s, rest) \<Longrightarrow> length rest < length bits"
proof (induction ls arbitrary: code first bits)
  case Nil
  then show ?case by simp
next
  case (Cons l ls)
  show ?case
  proof (cases bits)
    case Nil
    with Cons.prems show ?thesis by simp
  next
    case (Cons b bs)
    with Cons.prems Cons.IH show ?thesis
      by (fastforce simp: Let_def split: if_splits)
  qed
qed

lemma decode_length: "decode lens bits = Some (s, rest) \<Longrightarrow> length rest < length bits"
  unfolding decode_def by (rule decode_from_length)

text \<open>
  The compressed data of a block with Huffman codes (RFC 1951, 3.2.5): literals,
  the end-of-block symbol 256, and length symbols with their extra bits, each
  followed by a distance symbol with its extra bits. The symbols 286 and 287 and
  the distance symbols 30 and 31 are invalid, and so is a distance that reaches
  before the start of the output.
\<close>

function inflate_codes :: "nat list \<Rightarrow> nat list \<Rightarrow> bool list \<Rightarrow> byte list \<Rightarrow> (bool list \<times> byte list) option" where
  "inflate_codes lencode distcode bits out =
     (case decode lencode bits of
        None \<Rightarrow> None
      | Some (symb, bits1) \<Rightarrow>
          if symb < 256 then inflate_codes lencode distcode bits1 (out @ [of_nat symb])
          else if symb = 256 then Some (bits1, out)
          else if 29 \<le> symb - 257 then None
          else
            (case take_bits (lext ! (symb - 257)) bits1 of
               None \<Rightarrow> None
             | Some (e, bits2) \<Rightarrow>
                 (case decode distcode bits2 of
                    None \<Rightarrow> None
                  | Some (dsym, bits3) \<Rightarrow>
                      if 30 \<le> dsym then None
                      else
                        (case take_bits (dext ! dsym) bits3 of
                           None \<Rightarrow> None
                         | Some (de, bits4) \<Rightarrow>
                             if length out < dbase ! dsym + de then None
                             else inflate_codes lencode distcode bits4
                                    (copy_back (dbase ! dsym + de) (lbase ! (symb - 257) + e) out)))))"
  by pat_completeness auto
termination
proof (relation "measure (\<lambda>(lencode, distcode, bits, out). length bits)")
  show "wf (measure (\<lambda>(lencode, distcode, bits, out). length bits))" by simp
next
  fix lencode distcode :: "nat list" and bits bits1 :: "bool list" and out :: "byte list"
    and x2 :: "nat \<times> bool list" and symb :: nat
  assume "decode lencode bits = Some x2" "(symb, bits1) = x2"
  then have "length bits1 < length bits" using decode_length[of lencode bits symb bits1] by simp
  then show "((lencode, distcode, bits1, out @ [of_nat symb]), (lencode, distcode, bits, out))
    \<in> measure (\<lambda>(lencode, distcode, bits, out). length bits)" by simp
next
  fix lencode distcode :: "nat list" and bits bits1 bits2 bits3 bits4 :: "bool list"
    and out :: "byte list" and x2 x2a x2b x2c :: "nat \<times> bool list" and symb e dsym de :: nat
  assume "decode lencode bits = Some x2" "(symb, bits1) = x2"
    "take_bits (lext ! (symb - 257)) bits1 = Some x2a" "(e, bits2) = x2a"
    "decode distcode bits2 = Some x2b" "(dsym, bits3) = x2b"
    "take_bits (dext ! dsym) bits3 = Some x2c" "(de, bits4) = x2c"
  then have "length bits1 < length bits" "length bits2 \<le> length bits1"
    "length bits3 < length bits2" "length bits4 \<le> length bits3"
    using decode_length[of lencode bits symb bits1] take_bits_length[of _ bits1 e bits2]
      decode_length[of distcode bits2 dsym bits3] take_bits_length[of _ bits3 de bits4]
    by simp_all
  then show "((lencode, distcode, bits4, copy_back (dbase ! dsym + de) (lbase ! (symb - 257) + e) out),
      (lencode, distcode, bits, out)) \<in> measure (\<lambda>(lencode, distcode, bits, out). length bits)"
    by simp
qed

declare inflate_codes.simps [simp del]

text \<open>
  The code lengths of a dynamic block (RFC 1951, 3.2.7), themselves Huffman
  coded: 0 to 15 is a length, 16 repeats the previous length 3 to 6 times, 17
  and 18 repeat the length 0 (3 to 10 and 11 to 138 times). A repeat with no
  previous length, or past the last length, is invalid.
\<close>

function read_lengths :: "nat list \<Rightarrow> nat \<Rightarrow> nat list \<Rightarrow> bool list \<Rightarrow> (nat list \<times> bool list) option" where
  "read_lengths clcode n lens bits =
     (if n \<le> length lens then Some (lens, bits)
      else
        (case decode clcode bits of
           None \<Rightarrow> None
         | Some (symb, bits1) \<Rightarrow>
             if symb < 16 then read_lengths clcode n (lens @ [symb]) bits1
             else if symb = 16 \<and> lens = [] then None
             else
               (case take_bits (if symb = 16 then 2 else if symb = 17 then 3 else 7) bits1 of
                  None \<Rightarrow> None
                | Some (v, bits2) \<Rightarrow>
                    let rep = (if symb = 18 then 11 else 3) + v;
                        prev = (if symb = 16 then last lens else 0)
                    in if n < length lens + rep then None
                       else read_lengths clcode n (lens @ replicate rep prev) bits2)))"
  by pat_completeness auto
termination
  by (relation "measure (\<lambda>(clcode, n, lens, bits). n - length lens)") auto

declare read_lengths.simps [simp del]

definition clorder :: "nat list" where
  "clorder = [16, 17, 18, 0, 8, 7, 9, 6, 10, 5, 11, 4, 12, 3, 13, 2, 14, 1, 15]"

fun read_clcode :: "nat list \<Rightarrow> nat list \<Rightarrow> bool list \<Rightarrow> (nat list \<times> bool list) option" where
  "read_clcode [] cl bits = Some (cl, bits)"
| "read_clcode (i # is) cl bits =
     (case take_bits 3 bits of
        None \<Rightarrow> None
      | Some (v, bits1) \<Rightarrow> read_clcode is (cl[i := v]) bits1)"

text \<open>
  The header of a dynamic block: the numbers of literal/length codes, distance
  codes and code length codes, then the code of the code lengths in the order
  \<open>clorder\<close>, then the code lengths of the two codes of the block.
\<close>

definition read_counts :: "bool list \<Rightarrow> ((nat \<times> nat \<times> nat) \<times> bool list) option" where
  "read_counts bits =
     (case take_bits 5 bits of None \<Rightarrow> None | Some (hlit, bits1) \<Rightarrow>
      case take_bits 5 bits1 of None \<Rightarrow> None | Some (hdist, bits2) \<Rightarrow>
      case take_bits 4 bits2 of None \<Rightarrow> None | Some (hclen, bits3) \<Rightarrow>
        if 286 < hlit + 257 \<or> 30 < hdist + 1 then None
        else Some ((hlit + 257, hdist + 1, hclen + 4), bits3))"

definition read_codes :: "bool list \<Rightarrow> ((nat list \<times> nat list) \<times> bool list) option" where
  "read_codes bits =
     (case read_counts bits of None \<Rightarrow> None | Some ((nlen, ndist, ncode), bits3) \<Rightarrow>
      case read_clcode (take ncode clorder) (replicate 19 0) bits3 of
        None \<Rightarrow> None
      | Some (clcode, bits4) \<Rightarrow>
          if \<not> complete_code clcode then None
          else
            (case read_lengths clcode (nlen + ndist) [] bits4 of
               None \<Rightarrow> None
             | Some (lens, bits5) \<Rightarrow>
                 if lens ! 256 = 0 then None
                 else if \<not> usable_code (take nlen lens) then None
                 else if \<not> usable_code (drop nlen lens) then None
                 else Some ((take nlen lens, drop nlen lens), bits5)))"

definition inflate_dynamic :: "bool list \<Rightarrow> byte list \<Rightarrow> (bool list \<times> byte list) option" where
  "inflate_dynamic bits out =
     (case read_codes bits of
        None \<Rightarrow> None
      | Some ((lencode, distcode), bits5) \<Rightarrow> inflate_codes lencode distcode bits5 out)"

definition fixed_lencode :: "nat list" where
  "fixed_lencode = replicate 144 8 @ replicate 112 9 @ replicate 24 7 @ replicate 8 8"

definition fixed_distcode :: "nat list" where
  "fixed_distcode = replicate 30 5"

text \<open>
  A stored block (RFC 1951, 3.2.4): the bits up to the next byte boundary are
  skipped, then come LEN and its one's complement NLEN, then LEN bytes. The
  bit stream holds whole bytes, so what remains of the current byte is the
  number of remaining bits modulo 8.
\<close>

definition inflate_stored :: "bool list \<Rightarrow> byte list \<Rightarrow> (bool list \<times> byte list) option" where
  "inflate_stored bits out =
     (case take_bits 16 (drop (length bits mod 8) bits) of None \<Rightarrow> None | Some (len, bits1) \<Rightarrow>
      case take_bits 16 bits1 of None \<Rightarrow> None | Some (nlen, bits2) \<Rightarrow>
        if len + nlen \<noteq> 65535 then None
        else
          (case take_bytes len bits2 of
             None \<Rightarrow> None
           | Some (data, bits3) \<Rightarrow> Some (bits3, out @ data)))"

definition inflate_block :: "nat \<Rightarrow> bool list \<Rightarrow> byte list \<Rightarrow> (bool list \<times> byte list) option" where
  "inflate_block btype bits out =
     (if btype = 0 then inflate_stored bits out
      else if btype = 1 then inflate_codes fixed_lencode fixed_distcode bits out
      else if btype = 2 then inflate_dynamic bits out
      else None)"

lemma inflate_codes_length:
  "inflate_codes lencode distcode bits out = Some (rest, out') \<Longrightarrow> length rest \<le> length bits"
proof (induction lencode distcode bits out rule: inflate_codes.induct)
  case (1 lencode distcode bits out)
  from "1.prems" obtain symb bits1 where d: "decode lencode bits = Some (symb, bits1)"
    by (subst (asm) inflate_codes.simps) (auto split: option.splits)
  then have l1: "length bits1 < length bits" by (rule decode_length)
  show ?case
  proof (cases "symb < 256")
    case True
    with "1.prems" d have "inflate_codes lencode distcode bits1 (out @ [of_nat symb]) = Some (rest, out')"
      by (subst (asm) inflate_codes.simps) simp
    from "1.IH"(1)[OF d refl True this] l1 show ?thesis by simp
  next
    case False
    show ?thesis
    proof (cases "symb = 256")
      case True
      with "1.prems" d l1 show ?thesis
        by (subst (asm) inflate_codes.simps) simp
    next
      case n256: False
      from "1.prems" d False n256 obtain e bits2 dsym bits3 de bits4 where
        s: "\<not> 29 \<le> symb - 257" "take_bits (lext ! (symb - 257)) bits1 = Some (e, bits2)"
          "decode distcode bits2 = Some (dsym, bits3)" "\<not> 30 \<le> dsym"
          "take_bits (dext ! dsym) bits3 = Some (de, bits4)" "\<not> length out < dbase ! dsym + de"
          "inflate_codes lencode distcode bits4
             (copy_back (dbase ! dsym + de) (lbase ! (symb - 257) + e) out) = Some (rest, out')"
        by (subst (asm) inflate_codes.simps) (auto split: option.splits if_splits)
      have "length rest \<le> length bits4"
        using "1.IH"(2)[OF d refl False n256 s(1) s(2) refl s(3) refl s(4) s(5) refl s(6) s(7)] .
      moreover have "length bits4 \<le> length bits3" using s(5) by (rule take_bits_length)
      moreover have "length bits3 < length bits2" using s(3) by (rule decode_length)
      moreover have "length bits2 \<le> length bits1" using s(2) by (rule take_bits_length)
      ultimately show ?thesis using l1 by simp
    qed
  qed
qed

lemma read_clcode_length:
  "read_clcode is cl bits = Some (cl', rest) \<Longrightarrow> length rest \<le> length bits"
proof (induction "is" arbitrary: cl bits)
  case Nil
  then show ?case by simp
next
  case (Cons i "is")
  from Cons.prems obtain v bits1 where t: "take_bits 3 bits = Some (v, bits1)"
    and r: "read_clcode is (cl[i := v]) bits1 = Some (cl', rest)"
    by (auto split: option.splits)
  from Cons.IH[OF r] take_bits_length[OF t] show ?case by simp
qed

lemma read_lengths_length:
  "read_lengths clcode n lens bits = Some (lens', rest) \<Longrightarrow> length rest \<le> length bits"
proof (induction clcode n lens bits rule: read_lengths.induct)
  case (1 clcode n lens bits)
  show ?case
  proof (cases "n \<le> length lens")
    case True
    with "1.prems" show ?thesis by (subst (asm) read_lengths.simps) simp
  next
    case False
    with "1.prems" obtain symb bits1 where d: "decode clcode bits = Some (symb, bits1)"
      by (subst (asm) read_lengths.simps) (auto split: option.splits)
    then have l1: "length bits1 < length bits" by (rule decode_length)
    show ?thesis
    proof (cases "symb < 16")
      case True
      with "1.prems" False d have "read_lengths clcode n (lens @ [symb]) bits1 = Some (lens', rest)"
        by (subst (asm) read_lengths.simps) simp
      from "1.IH"(1)[OF False d refl True this] l1 show ?thesis by simp
    next
      case n16: False
      from "1.prems" False d n16 obtain v bits2 where
        s: "\<not> (symb = 16 \<and> lens = [])"
          "take_bits (if symb = 16 then 2 else if symb = 17 then 3 else 7) bits1 = Some (v, bits2)"
          "\<not> n < length lens + ((if symb = 18 then 11 else 3) + v)"
          "read_lengths clcode n
             (lens @ replicate ((if symb = 18 then 11 else 3) + v) (if symb = 16 then last lens else 0))
             bits2 = Some (lens', rest)"
        by (subst (asm) read_lengths.simps) (auto simp: Let_def split: option.splits if_splits)
      have "length rest \<le> length bits2"
        using "1.IH"(2)[OF False d refl n16 s(1) s(2) refl refl refl s(3) s(4)] .
      with take_bits_length[OF s(2)] l1 show ?thesis by simp
    qed
  qed
qed

lemma read_counts_length:
  assumes "read_counts bits = Some (c, rest)"
  shows "length rest \<le> length bits"
proof -
  from assms obtain hlit bits1 where 1: "take_bits 5 bits = Some (hlit, bits1)"
    unfolding read_counts_def by (cases "take_bits 5 bits") auto
  from assms 1 obtain hdist bits2 where 2: "take_bits 5 bits1 = Some (hdist, bits2)"
    unfolding read_counts_def by (cases "take_bits 5 bits1") auto
  from assms 1 2 obtain hclen where 3: "take_bits 4 bits2 = Some (hclen, rest)"
    unfolding read_counts_def by (cases "take_bits 4 bits2") (auto split: if_splits)
  from take_bits_length[OF 1] take_bits_length[OF 2] take_bits_length[OF 3]
  show ?thesis by simp
qed

lemma read_codes_length:
  assumes "read_codes bits = Some (c, rest)"
  shows "length rest \<le> length bits"
proof -
  from assms obtain nlen ndist ncode bits3 where
    1: "read_counts bits = Some ((nlen, ndist, ncode), bits3)"
    unfolding read_codes_def by (cases "read_counts bits") auto
  from assms 1 obtain clcode bits4 where
    2: "read_clcode (take ncode clorder) (replicate 19 0) bits3 = Some (clcode, bits4)"
    unfolding read_codes_def
    by (cases "read_clcode (take ncode clorder) (replicate 19 0) bits3") auto
  from assms 1 2 obtain lens where
    3: "read_lengths clcode (nlen + ndist) [] bits4 = Some (lens, rest)"
    unfolding read_codes_def
    by (cases "read_lengths clcode (nlen + ndist) [] bits4") (auto split: if_splits)
  from read_counts_length[OF 1] read_clcode_length[OF 2] read_lengths_length[OF 3]
  show ?thesis by simp
qed

lemma inflate_dynamic_length:
  assumes "inflate_dynamic bits out = Some (rest, out')"
  shows "length rest \<le> length bits"
proof -
  from assms obtain lencode distcode bits5 where
    1: "read_codes bits = Some ((lencode, distcode), bits5)"
      and 2: "inflate_codes lencode distcode bits5 out = Some (rest, out')"
    unfolding inflate_dynamic_def by (cases "read_codes bits") auto
  from read_codes_length[OF 1] inflate_codes_length[OF 2] show ?thesis by simp
qed

lemma inflate_stored_length:
  assumes "inflate_stored bits out = Some (rest, out')"
  shows "length rest \<le> length bits"
proof -
  from assms obtain len bits1 nlen bits2 data where
    s: "take_bits 16 (drop (length bits mod 8) bits) = Some (len, bits1)"
       "take_bits 16 bits1 = Some (nlen, bits2)" "take_bytes len bits2 = Some (data, rest)"
    unfolding inflate_stored_def by (auto split: option.splits if_splits)
  from take_bits_length[OF s(1)] take_bits_length[OF s(2)] take_bytes_length[OF s(3)]
  show ?thesis by simp
qed

lemma inflate_block_length:
  "inflate_block btype bits out = Some (rest, out') \<Longrightarrow> length rest \<le> length bits"
  unfolding inflate_block_def
  by (simp split: if_splits)
     (erule inflate_stored_length inflate_codes_length inflate_dynamic_length)+

text \<open>
  A deflate stream is a sequence of blocks, each opened by the bit BFINAL and
  the two bits BTYPE; the block with BFINAL set is the last (RFC 1951, 3.2.3).
  The result is the output and the bits that follow the stream.
\<close>

function inflate :: "bool list \<Rightarrow> byte list \<Rightarrow> (bool list \<times> byte list) option" where
  "inflate bits out =
     (case take_bits 1 bits of None \<Rightarrow> None | Some (bfinal, bits1) \<Rightarrow>
      case take_bits 2 bits1 of None \<Rightarrow> None | Some (btype, bits2) \<Rightarrow>
      case inflate_block btype bits2 out of None \<Rightarrow> None | Some (bits3, out') \<Rightarrow>
        if bfinal = 1 then Some (bits3, out') else inflate bits3 out')"
  by pat_completeness auto
termination
proof (relation "measure (\<lambda>(bits, out). length bits)")
  show "wf (measure (\<lambda>(bits, out). length bits))" by simp
next
  fix bits bits1 bits2 bits3 :: "bool list" and out out' :: "byte list"
    and x2 x2a :: "nat \<times> bool list" and x2b :: "bool list \<times> byte list" and bfinal btype :: nat
  assume a: "take_bits 1 bits = Some x2" "(bfinal, bits1) = x2"
    "take_bits 2 bits1 = Some x2a" "(btype, bits2) = x2a"
    "inflate_block btype bits2 out = Some x2b" "(bits3, out') = x2b"
  then have "length bits1 < length bits"
    by (auto simp: take_bits_def split: if_splits)
  moreover have "length bits2 \<le> length bits1" using a take_bits_length[of 2 bits1 btype bits2] by simp
  moreover have "length bits3 \<le> length bits2"
    using a inflate_block_length[of btype bits2 out bits3 out'] by simp
  ultimately show "((bits3, out'), (bits, out)) \<in> measure (\<lambda>(bits, out). length bits)" by simp
qed

declare inflate.simps [simp del]

text \<open>The checksum of the zlib trailer (RFC 1950, 8.2).\<close>

definition adler32 :: "byte list \<Rightarrow> nat" where
  "adler32 bs =
     (case fold (\<lambda>b (s1, s2). ((s1 + unat b) mod 65521, (s2 + (s1 + unat b) mod 65521) mod 65521))
             bs (1, 0)
      of (s1, s2) \<Rightarrow> s2 * 65536 + s1)"

definition be32 :: "byte list \<Rightarrow> nat" where
  "be32 bs = fold (\<lambda>b v. 256 * v + unat b) bs 0"

text \<open>
  A zlib stream (RFC 1950): the bytes CMF and FLG, which as a 16-bit number
  must be a multiple of 31, with the method 8 (deflate), a window of at most
  \<open>2 ^ wbits\<close> bytes and no preset dictionary; then the deflate stream; then,
  from the next byte boundary, the Adler-32 checksum of the output, most
  significant byte first. Bytes after the checksum are ignored.
\<close>

definition zlib_stream :: "nat \<Rightarrow> byte list \<Rightarrow> byte list option" where
  "zlib_stream wbits data =
     (case data of
        cmf # flg # rest \<Rightarrow>
          if (256 * unat cmf + unat flg) mod 31 \<noteq> 0 then None
          else if unat cmf mod 16 \<noteq> 8 then None
          else if wbits < unat cmf div 16 + 8 then None
          else if bit flg 5 then None
          else
            (case inflate (bits_of_bytes rest) [] of
               None \<Rightarrow> None
             | Some (bits, out) \<Rightarrow>
                 (case take_bytes 4 (drop (length bits mod 8) bits) of
                    None \<Rightarrow> None
                  | Some (check, bits') \<Rightarrow> if be32 check = adler32 out then Some out else None))
      | _ \<Rightarrow> None)"

text \<open>A raw deflate stream has no header and no checksum.\<close>

definition raw_stream :: "byte list \<Rightarrow> byte list option" where
  "raw_stream data = map_option snd (inflate (bits_of_bytes data) [])"


text \<open>
  \<open>zlib.decompress(data, wbits, bufsize)\<close>. A negative \<open>bufsize\<close> is refused
  before anything is read; otherwise \<open>bufsize\<close> is only the first size of the
  output buffer, which grows as needed, so it has no part in the result.
  \<open>wbits = 15\<close> reads a zlib stream with the largest window and
  \<open>wbits = -15\<close> a raw deflate stream. The other values of \<open>wbits\<close> (smaller
  windows, gzip framing, automatic detection) are outside this model: the
  program only ever passes 15.
\<close>

definition zlib_decompress :: "byte list \<Rightarrow> int \<Rightarrow> int \<Rightarrow> exn + byte list" where
  "zlib_decompress data wbits bufsize =
     (if bufsize < 0 then Inl ValueError
      else if wbits = 15 then
        (case zlib_stream 15 data of None \<Rightarrow> Inl ZlibError | Some out \<Rightarrow> Inr out)
      else if wbits = - 15 then
        (case raw_stream data of None \<Rightarrow> Inl ZlibError | Some out \<Rightarrow> Inr out)
      else Inl NotModelled)"

section \<open>hashlib.md5: the MD5 digest of RFC 1321\<close>

text \<open>
  The message is padded with the byte 0x80, zero bytes up to 56 modulo 64 and
  its length in bits as 8 bytes, least significant first; the padded message is
  processed in blocks of 64 bytes, each read as 16 little-endian words.
\<close>

definition le_bytes :: "nat \<Rightarrow> nat \<Rightarrow> byte list" where
  "le_bytes n v = map (\<lambda>i. of_nat (v div 256 ^ i)) [0..<n]"

definition md5_pad :: "byte list \<Rightarrow> byte list" where
  "md5_pad m =
     m @ [128] @ replicate ((119 - length m mod 64) mod 64) 0 @ le_bytes 8 (8 * length m)"

definition le32_word :: "byte list \<Rightarrow> 32 word" where
  "le32_word bs = fold (\<lambda>b w. push_bit 8 w OR ucast b) (rev bs) 0"

fun md5_words :: "byte list \<Rightarrow> 32 word list" where
  "md5_words (b0 # b1 # b2 # b3 # bs) = le32_word [b0, b1, b2, b3] # md5_words bs"
| "md5_words bs = []"

definition md5_K :: "32 word list" where
  "md5_K =
    [0xd76aa478, 0xe8c7b756, 0x242070db, 0xc1bdceee, 0xf57c0faf, 0x4787c62a, 0xa8304613, 0xfd469501,
     0x698098d8, 0x8b44f7af, 0xffff5bb1, 0x895cd7be, 0x6b901122, 0xfd987193, 0xa679438e, 0x49b40821,
     0xf61e2562, 0xc040b340, 0x265e5a51, 0xe9b6c7aa, 0xd62f105d, 0x02441453, 0xd8a1e681, 0xe7d3fbc8,
     0x21e1cde6, 0xc33707d6, 0xf4d50d87, 0x455a14ed, 0xa9e3e905, 0xfcefa3f8, 0x676f02d9, 0x8d2a4c8a,
     0xfffa3942, 0x8771f681, 0x6d9d6122, 0xfde5380c, 0xa4beea44, 0x4bdecfa9, 0xf6bb4b60, 0xbebfbc70,
     0x289b7ec6, 0xeaa127fa, 0xd4ef3085, 0x04881d05, 0xd9d4d039, 0xe6db99e5, 0x1fa27cf8, 0xc4ac5665,
     0xf4292244, 0x432aff97, 0xab9423a7, 0xfc93a039, 0x655b59c3, 0x8f0ccc92, 0xffeff47d, 0x85845dd1,
     0x6fa87e4f, 0xfe2ce6e0, 0xa3014314, 0x4e0811a1, 0xf7537e82, 0xbd3af235, 0x2ad7d2bb, 0xeb86d391]"

definition md5_s :: "nat list" where
  "md5_s =
    [7, 12, 17, 22, 7, 12, 17, 22, 7, 12, 17, 22, 7, 12, 17, 22,
     5, 9, 14, 20, 5, 9, 14, 20, 5, 9, 14, 20, 5, 9, 14, 20,
     4, 11, 16, 23, 4, 11, 16, 23, 4, 11, 16, 23, 4, 11, 16, 23,
     6, 10, 15, 21, 6, 10, 15, 21, 6, 10, 15, 21, 6, 10, 15, 21]"

definition rotl32 :: "nat \<Rightarrow> 32 word \<Rightarrow> 32 word" where
  "rotl32 n w = push_bit n w OR drop_bit (32 - n) w"

type_synonym md5_state = "32 word \<times> 32 word \<times> 32 word \<times> 32 word"

fun md5_round :: "32 word list \<Rightarrow> nat \<Rightarrow> md5_state \<Rightarrow> md5_state" where
  "md5_round M i (a, b, c, d) =
     (let f = (if i < 16 then (b AND c) OR (NOT b AND d)
               else if i < 32 then (d AND b) OR (NOT d AND c)
               else if i < 48 then b XOR c XOR d
               else c XOR (b OR NOT d));
          g = (if i < 16 then i
               else if i < 32 then (5 * i + 1) mod 16
               else if i < 48 then (3 * i + 5) mod 16
               else (7 * i) mod 16)
      in (d, b + rotl32 (md5_s ! i) (a + f + md5_K ! i + M ! g), b, c))"

definition md5_block :: "byte list \<Rightarrow> md5_state \<Rightarrow> md5_state" where
  "md5_block block st =
     (case st of (a0, b0, c0, d0) \<Rightarrow>
        (case fold (md5_round (md5_words block)) [0..<64] st of
           (a, b, c, d) \<Rightarrow> (a0 + a, b0 + b, c0 + c, d0 + d)))"

function md5_blocks :: "byte list \<Rightarrow> md5_state \<Rightarrow> md5_state" where
  "md5_blocks m st = (if length m < 64 then st else md5_blocks (drop 64 m) (md5_block (take 64 m) st))"
  by pat_completeness auto
termination
  by (relation "measure (\<lambda>(m, st). length m)") auto

declare md5_blocks.simps [simp del]

definition hexdigit :: "nat \<Rightarrow> char" where
  "hexdigit n = ''0123456789abcdef'' ! n"

definition hex_of_byte :: "byte \<Rightarrow> string" where
  "hex_of_byte b = [hexdigit (unat b div 16), hexdigit (unat b mod 16)]"

definition word_bytes :: "32 word \<Rightarrow> byte list" where
  "word_bytes w = [ucast w, ucast (drop_bit 8 w), ucast (drop_bit 16 w), ucast (drop_bit 24 w)]"

text \<open>\<open>hashlib.md5(m).hexdigest()\<close>.\<close>

definition md5_hexdigest :: "byte list \<Rightarrow> string" where
  "md5_hexdigest m =
     (case md5_blocks (md5_pad m) (0x67452301, 0xefcdab89, 0x98badcfe, 0x10325476) of
        (a, b, c, d) \<Rightarrow>
          concat (map hex_of_byte (word_bytes a @ word_bytes b @ word_bytes c @ word_bytes d)))"

section \<open>Files, paths and the console log\<close>

text \<open>
  The file system as the program reads it: a path names a regular file with
  its bytes, or a directory with its size (\<open>st_size\<close>) and the names of its
  entries, or nothing.
\<close>

datatype node = File "byte list" | Dir nat "string list"

type_synonym filesystem = "string \<Rightarrow> node option"

definition isfile :: "filesystem \<Rightarrow> string \<Rightarrow> bool" where
  "isfile fs p = (case fs p of Some (File bs) \<Rightarrow> True | _ \<Rightarrow> False)"

definition getsize :: "filesystem \<Rightarrow> string \<Rightarrow> exn + nat" where
  "getsize fs p =
     (case fs p of Some (File bs) \<Rightarrow> Inr (length bs) | Some (Dir n es) \<Rightarrow> Inr n | None \<Rightarrow> Inl OSError)"

text \<open>\<open>open(fn, 'rb')\<close>: the bytes still to be read.\<close>

definition open_rb :: "filesystem \<Rightarrow> string \<Rightarrow> exn + byte list" where
  "open_rb fs p = (case fs p of Some (File bs) \<Rightarrow> Inr bs | _ \<Rightarrow> Inl OSError)"

definition listdir :: "filesystem \<Rightarrow> string \<Rightarrow> exn + string list" where
  "listdir fs p = (case fs p of Some (Dir n es) \<Rightarrow> Inr es | _ \<Rightarrow> Inl OSError)"

text \<open>\<open>os.path.basename\<close> and \<open>os.path.join\<close> as posixpath defines them.\<close>

definition basename :: "string \<Rightarrow> string" where
  "basename p = rev (takeWhile (\<lambda>c. c \<noteq> CHR ''/'') (rev p))"

definition join :: "string \<Rightarrow> string \<Rightarrow> string" where
  "join a b =
     (if take 1 b = ''/'' then b
      else if a = [] \<or> endswith a ''/'' then a @ b
      else a @ ''/'' @ b)"

text \<open>
  The calls of \<open>log\<close> made by \<open>check_one_file\<close> and \<open>scan_directory\<close>, with the
  values they format, and the level each call passes: 1 is ERROR, 2 is WARN,
  4 is DEBUG. Whether a line is printed depends on the verbosity, which is
  not modelled.
\<close>

datatype event =
    CompressedFile string
  | ExpectedEOF string nat
  | OversizeCompressed string nat
  | OversizeUncompressed string nat
  | ZeroCompressed string nat
  | ZeroUncompressed string nat
  | UnexpectedEOF string nat
  | CacheFile
  | WeirdFiletype string
  | HugeFile
  | SkippingFolder string
  | ErrorParsing string
  | NoHash string
  | Hashed string nat string

fun level :: "event \<Rightarrow> nat" where
  "level (CompressedFile fn) = 4"
| "level (ExpectedEOF fn chunks) = 4"
| "level (OversizeCompressed fn cs) = 2"
| "level (OversizeUncompressed fn us) = 2"
| "level (ZeroCompressed fn cs) = 1"
| "level (ZeroUncompressed fn us) = 1"
| "level (UnexpectedEOF fn chunks) = 1"
| "level CacheFile = 2"
| "level (WeirdFiletype fn) = 4"
| "level HugeFile = 1"
| "level (SkippingFolder fp) = 4"
| "level (ErrorParsing rfn) = 1"
| "level (NoHash fn) = 4"
| "level (Hashed rfn sz md5) = 4"

section \<open>class HashGrabber\<close>

text \<open>\<open>struct.unpack("<I", bs)\<close> on four bytes.\<close>

definition le32 :: "byte list \<Rightarrow> nat" where
  "le32 bs = fold (\<lambda>b v. 256 * v + unat b) (rev bs) 0"

text \<open>The input validation of a chunk header: one \<open>if\<close>/\<open>elif\<close> chain that only logs.\<close>

definition validate_chunk :: "string \<Rightarrow> nat \<Rightarrow> nat \<Rightarrow> event list" where
  "validate_chunk fn cs us =
     (if 33096 < cs then [OversizeCompressed fn cs]
      else if 32768 < us then [OversizeUncompressed fn us]
      else if cs = 0 then [ZeroCompressed fn cs]
      else if us = 0 then [ZeroUncompressed fn us]
      else [])"

text \<open>
  The loop \<open>while fs > 0\<close> of \<open>check_one_file\<close> over a compressed file. \<open>f\<close> is
  what is left to read of the file, \<open>sz\<close> the variable \<open>size\<close>, \<open>h\<close> the bytes fed
  to the \<open>hashlib.md5\<close> object so far. The loop ends in the exception of
  \<open>zlib.decompress\<close>, in the early \<open>return (rfn, None, None)\<close> (the result
  \<open>None\<close>), or normally with \<open>size\<close> and the hash object.
\<close>

function decompress_loop ::
  "string \<Rightarrow> int \<Rightarrow> byte list \<Rightarrow> nat \<Rightarrow> byte list \<Rightarrow> nat \<Rightarrow> event list \<times> (exn + (nat \<times> byte list) option)"
where
  "decompress_loop fn fs f sz h chunks =
     (if fs \<le> 0 then ([], Inr (Some (sz, h)))
      else if length f < 8 then ([ExpectedEOF fn chunks], Inr (Some (sz, h)))
      else
        let cs = le32 (take 4 f); us = le32 (take 4 (drop 4 f));
            lg = validate_chunk fn cs us;
            chunk = take cs (drop 8 f)
        in if length chunk \<noteq> cs then (lg @ [UnexpectedEOF fn chunks], Inr None)
           else
             (case zlib_decompress chunk 15 (int us) of
                Inl e \<Rightarrow> (lg, Inl e)
              | Inr data \<Rightarrow>
                  (case decompress_loop fn (fs - (8 + int cs)) (drop cs (drop 8 f)) (sz + us)
                          (h @ data) (chunks + 1)
                   of (lg', r) \<Rightarrow> (lg @ lg', r))))"
  by pat_completeness auto
termination
  by (relation "measure (\<lambda>(fn, fs, f, sz, h, chunks). length f)") auto

declare decompress_loop.simps [simp del]

text \<open>The loop \<open>while True\<close> over an uncompressed file, read in blocks of 32768 bytes.\<close>

function read_blocks :: "byte list \<Rightarrow> byte list \<Rightarrow> byte list" where
  "read_blocks f h =
     (let chunk = take 32768 f in if chunk = [] then h else read_blocks (drop 32768 f) (h @ chunk))"
  by pat_completeness auto
termination
  by (relation "measure (\<lambda>(f, h). length f)") (auto simp: Let_def)

declare read_blocks.simps [simp del]

definition known_types :: "string list" where
  "known_types = [''u'', ''ucl'', ''ukx'', ''uxx'', ''ka'', ''ut2'', ''ogg'', ''uax'', ''usx'', ''utx'']"

text \<open>
  \<open>HashGrabber.check_one_file(fn, skip_weird)\<close>: the log, and the exception or
  the tuple \<open>(rfn, size, md5)\<close>.
\<close>

definition check_one_file ::
  "filesystem \<Rightarrow> string \<Rightarrow> bool \<Rightarrow> event list \<times> (exn + string \<times> nat option \<times> string option)"
where
  "check_one_file fs fn skip_weird =
     (if endswith (casefold fn) ''.uz2'' then
        (let rfn = basename (take (length fn - 4) fn) in
         case getsize fs fn of
           Inl e \<Rightarrow> ([CompressedFile fn], Inl e)
         | Inr fsize \<Rightarrow>
             (case open_rb fs fn of
                Inl e \<Rightarrow> ([CompressedFile fn], Inl e)
              | Inr f \<Rightarrow>
                  (case decompress_loop fn (int fsize) f 0 [] 0 of
                     (lg, Inl e) \<Rightarrow> (CompressedFile fn # lg, Inl e)
                   | (lg, Inr None) \<Rightarrow> (CompressedFile fn # lg, Inr (rfn, None, None))
                   | (lg, Inr (Some (sz, h))) \<Rightarrow>
                       (CompressedFile fn # lg, Inr (rfn, Some sz, Some (md5_hexdigest h))))))
      else
        (let rfn = basename fn;
             known = list_ex (endswith (casefold fn)) known_types;
             lg = (if known then (if endswith (casefold fn) ''uxx'' then [CacheFile] else [])
                   else [WeirdFiletype fn])
         in if \<not> known \<and> skip_weird then (lg, Inr (rfn, None, None))
            else
              (case getsize fs fn of
                 Inl e \<Rightarrow> (lg, Inl e)
               | Inr sz \<Rightarrow>
                   if 2147483647 < sz then (lg @ [HugeFile], Inr (rfn, None, None))
                   else
                     (case open_rb fs fn of
                        Inl e \<Rightarrow> (lg, Inl e)
                      | Inr f \<Rightarrow> (lg, Inr (rfn, Some sz, Some (md5_hexdigest (read_blocks f []))))))))"

text \<open>
  The \<open>for\<close> loop of \<open>scan_directory\<close> over the names that \<open>os.listdir\<close>
  returned. \<open>rfn\<close> is the local variable of that name: \<open>None\<close> as long as no
  call of \<open>check_one_file\<close> has returned, since only the tuple assignment
  binds it. The \<open>except\<close> clause formats \<open>rfn\<close> into its message; reading the
  unbound variable raises inside the handler and leaves the function.
\<close>

fun scan_loop ::
  "filesystem \<Rightarrow> string \<Rightarrow> string list \<Rightarrow> string option \<Rightarrow> database \<Rightarrow> event list \<times> (exn + database)"
where
  "scan_loop fs fp [] rfn db = ([], Inr db)"
| "scan_loop fs fp (fn # fns) rfn db =
     (let p = join fp fn in
      if \<not> isfile fs p then
        (case scan_loop fs fp fns rfn db of (lg, r) \<Rightarrow> (SkippingFolder fp # lg, r))
      else
        (case check_one_file fs p True of
           (lg1, Inl e) \<Rightarrow>
             (case rfn of
                None \<Rightarrow> (lg1, Inl UnboundLocalError)
              | Some n \<Rightarrow>
                  (case scan_loop fs fp fns rfn db of
                     (lg, r) \<Rightarrow> (lg1 @ [ErrorParsing n, NoHash fn] @ lg, r)))
         | (lg1, Inr (rfn', sz, md5)) \<Rightarrow>
             (case md5 of
                None \<Rightarrow>
                  (case scan_loop fs fp fns (Some rfn') db of
                     (lg, r) \<Rightarrow> (lg1 @ [NoHash fn] @ lg, r))
              | Some m \<Rightarrow>
                  (case sz of
                     None \<Rightarrow> (lg1, Inl TypeError)
                   | Some s \<Rightarrow>
                       (case put rfn' (int s) m db of
                          Inl e \<Rightarrow> (lg1 @ [Hashed rfn' s m], Inl e)
                        | Inr db1 \<Rightarrow>
                            (case scan_loop fs fp fns (Some rfn') db1 of
                               (lg, r) \<Rightarrow> (lg1 @ [Hashed rfn' s m] @ lg, r)))))))"

text \<open>\<open>HashGrabber.scan_directory(fp)\<close>.\<close>

definition scan_directory ::
  "filesystem \<Rightarrow> string \<Rightarrow> database \<Rightarrow> event list \<times> (exn + database)"
where
  "scan_directory fs fp db =
     (case listdir fs fp of
        Inl e \<Rightarrow> ([], Inl e)
      | Inr fns \<Rightarrow>
          (case scan_loop fs fp fns None db of
             (lg, Inl e) \<Rightarrow> (lg, Inl e)
           | (lg, Inr db1) \<Rightarrow> (lg, Inr (commit db1))))"

text \<open>
  The container format written out: a chunk is its two sizes as little-endian
  32-bit numbers and its payload; a container is its chunks one after another.
  A chunk is given as the declared uncompressed size and the payload.
\<close>

definition chunk_bytes :: "nat \<times> byte list \<Rightarrow> byte list" where
  "chunk_bytes c = le_bytes 4 (length (snd c)) @ le_bytes 4 (fst c) @ snd c"

definition container :: "(nat \<times> byte list) list \<Rightarrow> byte list" where
  "container cs = concat (map chunk_bytes cs)"

text \<open>What \<open>zlib.decompress\<close> makes of a chunk; nothing when it raises.\<close>

definition inflated :: "nat \<times> byte list \<Rightarrow> byte list" where
  "inflated c = (case zlib_decompress (snd c) 15 (int (fst c)) of Inl e \<Rightarrow> [] | Inr data \<Rightarrow> data)"

definition valid_chunk :: "nat \<times> byte list \<Rightarrow> bool" where
  "valid_chunk c \<longleftrightarrow>
     fst c < 2 ^ 32 \<and> length (snd c) < 2 ^ 32 \<and> (case zlib_decompress (snd c) 15 (int (fst c)) of Inl e \<Rightarrow> False | Inr data \<Rightarrow> True)"

text \<open>The name under which \<open>check_one_file\<close> reports the path \<open>p\<close>.\<close>

definition stored_name :: "string \<Rightarrow> string" where
  "stored_name p = basename (if endswith (casefold p) ''.uz2'' then take (length p - 4) p else p)"

section \<open>Properties of the Database\<close>

subsection \<open>Group maxima and the next free id\<close>

lemma fold_max_Max: "fold max xs (x::int) = Max (set (x # xs))"
  using Max.set_eq_fold[of x xs] by simp

lemma group_max_Max: "group_max t r = Max (insert (row_id r) (row_id ` {s \<in> set t. same_group r s}))"
  by (simp add: group_max_def fold_max_Max)

lemma max_id_Some: "t \<noteq> [] \<Longrightarrow> max_id t = Some (Max (row_id ` set t))"
  by (cases t) (simp_all add: max_id_def fold_max_Max)

lemma same_group_refl: "same_group r r" by (simp add: same_group_def)
lemma same_group_sym: "same_group r s \<Longrightarrow> same_group s r" by (simp add: same_group_def)
lemma same_group_trans: "same_group r s \<Longrightarrow> same_group s u \<Longrightarrow> same_group r u" by (simp add: same_group_def)

lemma group_max_ge: "s \<in> set t \<Longrightarrow> same_group r s \<Longrightarrow> row_id s \<le> group_max t r"
  by (simp add: group_max_Max)

lemma group_max_self: "row_id r \<le> group_max t r"
  by (simp add: group_max_Max)

lemma group_max_attained:
  "r \<in> set t \<Longrightarrow> \<exists>s \<in> set t. same_group r s \<and> row_id s = group_max t r"
proof -
  assume r: "r \<in> set t"
  let ?S = "insert (row_id r) (row_id ` {s \<in> set t. same_group r s})"
  have "Max ?S \<in> ?S" by (rule Max_in) auto
  then show ?thesis using r by (auto simp: group_max_Max same_group_refl)
qed

lemma kept_iff:
  assumes d: "distinct (map row_id t)" and r: "r \<in> set t"
  shows "row_id r \<in> set (select_group_max_ids t) \<longleftrightarrow> (\<forall>s \<in> set t. same_group r s \<longrightarrow> row_id s \<le> row_id r)"
proof
  assume "row_id r \<in> set (select_group_max_ids t)"
  then obtain u where u: "u \<in> set t" "row_id r = group_max t u"
    by (auto simp: select_group_max_ids_def)
  from group_max_attained[OF u(1)] obtain s where s: "s \<in> set t" "same_group u s" "row_id s = group_max t u" by blast
  with u have "row_id s = row_id r" by simp
  with d r s(1) have "s = r" by (simp add: distinct_map inj_on_def)
  with s have ur: "same_group u r" by simp
  show "\<forall>s \<in> set t. same_group r s \<longrightarrow> row_id s \<le> row_id r"
  proof (intro ballI impI)
    fix v assume "v \<in> set t" "same_group r v"
    then have "row_id v \<le> group_max t u" using ur by (intro group_max_ge) (auto intro: same_group_trans)
    then show "row_id v \<le> row_id r" using u by simp
  qed
next
  assume a: "\<forall>s \<in> set t. same_group r s \<longrightarrow> row_id s \<le> row_id r"
  from group_max_attained[OF r] obtain s where s: "s \<in> set t" "same_group r s" "row_id s = group_max t r" by blast
  with a have "group_max t r \<le> row_id r" by auto
  with group_max_self[of r t] have "group_max t r = row_id r" by simp
  then show "row_id r \<in> set (select_group_max_ids t)" using r
    by (force simp: select_group_max_ids_def)
qed

lemma next_free_id_Nil: "next_free_id [] = 1" by (simp add: next_free_id_def max_id_def)
lemma next_free_id_Max: "t \<noteq> [] \<Longrightarrow> next_free_id t = Max (row_id ` set t) + 1"
  by (simp add: next_free_id_def max_id_Some)

lemma below_next_free_id: "r \<in> set t \<Longrightarrow> row_id r < next_free_id t"
proof -
  assume r: "r \<in> set t"
  then have "t \<noteq> []" by auto
  moreover have "row_id r \<le> Max (row_id ` set t)" using r by simp
  ultimately show ?thesis by (simp add: next_free_id_Max)
qed

lemma next_free_id_snoc:
  "next_free_id t \<le> row_id r \<Longrightarrow> next_free_id (t @ [r]) = row_id r + 1"
proof -
  assume a: "next_free_id t \<le> row_id r"
  have "Max (row_id ` set (t @ [r])) = row_id r"
  proof (rule Max_eqI)
    fix y assume "y \<in> row_id ` set (t @ [r])"
    then show "y \<le> row_id r" using a below_next_free_id[of _ t] by force
  qed auto
  then show ?thesis by (simp add: next_free_id_Max)
qed

lemma initialize_result:
  "\<exists>db'. initialize delete db = Inr db' \<and>
     view db' = Some (if delete then [] else table_of (view db)) \<and>
     count db' = next_free_id (if delete then [] else table_of (view db)) \<and>
     force_casefold db' = force_casefold db"
  by (auto simp: initialize_def exec_select_max_id_def exec_create_table_def exec_drop_table_def
      autocommit_def table_of_def next_free_id_def Let_def max_id_def split: option.splits)

lemma put_result:
  assumes "put fn sz md5 db = Inr db'"
  shows "\<exists>t. view db = Some t \<and> length md5 = 32 \<and> count db \<notin> row_id ` set t \<and>
     view db' = Some (t @ [\<lparr>row_id = count db,
        row_filename = (if force_casefold db then casefold fn else fn), row_size = sz, row_md5 = md5\<rparr>]) \<and>
     count db' = count db + 1 \<and> force_casefold db' = force_casefold db \<and>
     (if (count db + 1) mod 100 = 0 then disk db' = view db' \<and> \<not> in_transaction db' else disk db' = disk db \<and> in_transaction db')"
  using assms
  by (auto simp: put_def exec_insert_def Let_def commit_def PERIODICALLY_COMMIT_def
      split: if_splits option.splits sum.splits)

lemma put_succeeds:
  assumes "view db = Some t" "length md5 = 32" "count db = next_free_id t"
  shows "\<exists>db'. put fn sz md5 db = Inr db'"
proof -
  have "count db \<notin> row_id ` set t" using below_next_free_id[of _ t] assms(3) by force
  then show ?thesis using assms
    by (auto simp: put_def exec_insert_def Let_def)
qed

subsection \<open>What the calls do to a Database\<close>

lemma remove_duplicates_result:
  "remove_duplicates db = Inr db' \<Longrightarrow>
    \<exists>t. view db = Some t \<and> view db' = Some (delete_not_in_group_max t) \<and> disk db' = view db' \<and>
       \<not> in_transaction db' \<and> count db' = count db \<and> force_casefold db' = force_casefold db"
  by (auto simp: remove_duplicates_def exec_delete_duplicates_def commit_def delete_not_in_group_max_def
      split: option.splits sum.splits)

lemma remove_duplicates_succeeds:
  "view db = Some t \<Longrightarrow> \<exists>db'. remove_duplicates db = Inr db'"
  by (simp add: remove_duplicates_def exec_delete_duplicates_def)

lemma max_row_delete_not_in_group_max:
  assumes r: "r \<in> set t" and m: "\<forall>s \<in> set t. row_id s \<le> row_id r"
  shows "r \<in> set (delete_not_in_group_max t)"
proof -
  from group_max_attained[OF r] obtain s where "s \<in> set t" "row_id s = group_max t r" by blast
  with m have "group_max t r \<le> row_id r" by auto
  with group_max_self[of r t] have "group_max t r = row_id r" by simp
  then have "row_id r \<in> set (select_group_max_ids t)" using r
    by (force simp: select_group_max_ids_def)
  then show ?thesis using r by (simp add: delete_not_in_group_max_def)
qed

lemma next_free_id_delete_not_in_group_max: "next_free_id (delete_not_in_group_max t) = next_free_id t"
proof (cases "t = []")
  case True
  then show ?thesis by (simp add: delete_not_in_group_max_def)
next
  case False
  then have "Max (row_id ` set t) \<in> row_id ` set t" by (intro Max_in) auto
  then obtain r where r: "r \<in> set t" "row_id r = Max (row_id ` set t)" by auto
  then have "\<forall>s \<in> set t. row_id s \<le> row_id r" by simp
  with r(1) have k: "r \<in> set (delete_not_in_group_max t)" by (rule max_row_delete_not_in_group_max)
  then have ne: "delete_not_in_group_max t \<noteq> []" by auto
  have "Max (row_id ` set (delete_not_in_group_max t)) = row_id r"
  proof (rule Max_eqI)
    fix y assume "y \<in> row_id ` set (delete_not_in_group_max t)"
    then have "y \<in> row_id ` set t" by (auto simp: delete_not_in_group_max_def)
    then show "y \<le> row_id r" using r(2) by simp
  qed (use k in auto)
  then show ?thesis using False ne r(2) by (simp add: next_free_id_Max)
qed

lemma run_calls_ids:
  assumes "run_calls cs db = Inr (ids, db')" "view db = Some t" "count db = next_free_id t"
  shows "\<exists>t'. view db' = Some t' \<and> count db' = next_free_id t' \<and>
     sorted_wrt (<) ids \<and> (\<forall>i \<in> set ids. count db \<le> i \<and> i < count db') \<and> count db \<le> count db'"
  using assms
proof (induction cs arbitrary: db ids t)
  case Nil
  then show ?case by simp
next
  case (Cons c cs)
  show ?case
  proof (cases c)
    case (Put fn sz md5)
    with Cons.prems(1) obtain db1 ids1 where
      p: "put fn sz md5 db = Inr db1" and r: "run_calls cs db1 = Inr (ids1, db')" and
      i: "ids = count db # ids1"
      by (auto split: sum.splits prod.splits)
    from put_result[OF p] Cons.prems(2)
    have v1: "view db1 = Some (t @ [\<lparr>row_id = count db,
        row_filename = (if force_casefold db then casefold fn else fn), row_size = sz, row_md5 = md5\<rparr>])"
      and c1: "count db1 = count db + 1" by auto
    have n1: "count db1 = next_free_id (t @ [\<lparr>row_id = count db,
        row_filename = (if force_casefold db then casefold fn else fn), row_size = sz, row_md5 = md5\<rparr>])"
      using Cons.prems(3) c1 by (simp add: next_free_id_snoc)
    from Cons.IH[OF r v1 n1] obtain t' where
      "view db' = Some t'" "count db' = next_free_id t'" "sorted_wrt (<) ids1"
      "\<forall>i \<in> set ids1. count db1 \<le> i \<and> i < count db'" "count db1 \<le> count db'" by blast
    then show ?thesis using i c1 by force
  next
    case Commit
    with Cons.prems(1) have r: "run_calls cs (commit db) = Inr (ids, db')" by simp
    have "view (commit db) = Some t" "count (commit db) = next_free_id t"
      using Cons.prems by (simp_all add: commit_def)
    from Cons.IH[OF r this] show ?thesis by (simp add: commit_def)
  next
    case RemoveDuplicates
    with Cons.prems(1) obtain db1 where
      p: "remove_duplicates db = Inr db1" and r: "run_calls cs db1 = Inr (ids, db')"
      by (auto split: sum.splits)
    from remove_duplicates_result[OF p] Cons.prems(2)
    have v1: "view db1 = Some (delete_not_in_group_max t)" and c1: "count db1 = count db" by auto
    have n1: "count db1 = next_free_id (delete_not_in_group_max t)" using c1 Cons.prems(3) by (simp add: next_free_id_delete_not_in_group_max)
    from Cons.IH[OF r v1 n1] show ?thesis using c1 by simp
  qed
qed

lemma session_ids:
  assumes "session cs d = Inr (ids, d')"
  shows "\<exists>t'. d' = Some t' \<and> sorted_wrt (<) ids \<and>
     (\<forall>i \<in> set ids. next_free_id (table_of d) \<le> i \<and> i < next_free_id t') \<and>
     next_free_id (table_of d) \<le> next_free_id t'"
proof -
  from initialize_result[of False "connect d"] obtain db where
    i: "initialize False (connect d) = Inr db" and v: "view db = Some (table_of d)"
    and c: "count db = next_free_id (table_of d)"
    by (auto simp: connect_def)
  from assms i obtain db1 where r: "run_calls cs db = Inr (ids, db1)" and d': "d' = close db1"
    by (auto simp: session_def split: sum.splits prod.splits)
  from run_calls_ids[OF r v c] show ?thesis using d' c by (auto simp: close_def commit_def)
qed

lemma lifetime_ids:
  assumes "lifetime css d = Inr (ids, d')"
  shows "sorted_wrt (<) ids \<and>
     (\<forall>i \<in> set ids. next_free_id (table_of d) \<le> i \<and> i < next_free_id (table_of d')) \<and>
     next_free_id (table_of d) \<le> next_free_id (table_of d')"
  using assms
proof (induction css arbitrary: d ids)
  case Nil
  then show ?case by simp
next
  case (Cons cs css)
  from Cons.prems obtain ids1 d1 ids2 where
    s: "session cs d = Inr (ids1, d1)" and l: "lifetime css d1 = Inr (ids2, d')" and
    i: "ids = ids1 @ ids2"
    by (auto split: sum.splits prod.splits)
  from session_ids[OF s] obtain t1 where t1: "d1 = Some t1" "sorted_wrt (<) ids1"
     "\<forall>i \<in> set ids1. next_free_id (table_of d) \<le> i \<and> i < next_free_id t1"
     "next_free_id (table_of d) \<le> next_free_id t1" by blast
  from Cons.IH[OF l] have 2: "sorted_wrt (<) ids2"
     "\<forall>i \<in> set ids2. next_free_id (table_of d1) \<le> i \<and> i < next_free_id (table_of d')"
     "next_free_id (table_of d1) \<le> next_free_id (table_of d')" by auto
  have td1: "table_of d1 = t1" using t1(1) by (simp add: table_of_def)
  show ?case using t1 2 i td1 by (fastforce simp: sorted_wrt_append)
qed
lemma put_no_flush:
  assumes "view db = Some t" "length md5 = 32" "count db = next_free_id t" "(count db + 1) mod 100 \<noteq> 0"
  shows "put fn sz md5 db = Inr (db\<lparr>view := Some (t @ [inserted_row db fn sz md5 (count db)]),
     in_transaction := True, count := count db + 1\<rparr>)"
proof -
  have "count db \<notin> row_id ` set t" using below_next_free_id[of _ t] assms(3) by force
  then show ?thesis using assms
    by (simp add: put_def exec_insert_def Let_def PERIODICALLY_COMMIT_def inserted_row_def)
qed

lemma put_flush:
  assumes "view db = Some t" "length md5 = 32" "count db = next_free_id t" "(count db + 1) mod 100 = 0"
  shows "put fn sz md5 db = Inr (db\<lparr>disk := Some (t @ [inserted_row db fn sz md5 (count db)]),
     view := Some (t @ [inserted_row db fn sz md5 (count db)]),
     in_transaction := False, count := count db + 1\<rparr>)"
proof -
  have "count db \<notin> row_id ` set t" using below_next_free_id[of _ t] assms(3) by force
  then show ?thesis using assms
    by (simp add: put_def exec_insert_def Let_def PERIODICALLY_COMMIT_def inserted_row_def commit_def)
qed

lemma puts_no_flush:
  assumes "view db = Some t" "length md5 = 32" "count db = next_free_id t"
    "\<forall>k \<in> {1..int n}. (count db + k) mod 100 \<noteq> 0" "0 < n"
  shows "run_calls (replicate n (Put fn sz md5)) db =
     Inr (map (\<lambda>k. count db + int k) [0..<n],
          db\<lparr>view := Some (t @ map (\<lambda>k. inserted_row db fn sz md5 (count db + int k)) [0..<n]),
     in_transaction := True, count := count db + int n\<rparr>)"
  using assms
proof (induction n arbitrary: db t)
  case 0
  then show ?case by simp
next
  case (Suc n)
  let ?r = "inserted_row db fn sz md5 (count db)"
  let ?db1 = "db\<lparr>view := Some (t @ [?r]), in_transaction := True, count := count db + 1\<rparr>"
  have nf: "(count db + 1) mod 100 \<noteq> 0" using Suc.prems(4) by (auto dest: bspec[where x=1])
  have p: "put fn sz md5 db = Inr ?db1" using put_no_flush[OF Suc.prems(1,2,3) nf] .
  show ?case
  proof (cases "n = 0")
    case True
    then show ?thesis using p by simp
  next
    case False
    have v1: "view ?db1 = Some (t @ [?r])" by simp
    have c1: "count ?db1 = next_free_id (t @ [?r])"
      using Suc.prems(3) by (simp add: next_free_id_snoc inserted_row_def)
    have f1: "\<forall>k \<in> {1..int n}. (count ?db1 + k) mod 100 \<noteq> 0"
    proof
      fix k assume "k \<in> {1..int n}"
      then have "k + 1 \<in> {1..int (Suc n)}" by auto
      with Suc.prems(4) have "(count db + (k + 1)) mod 100 \<noteq> 0" by (rule bspec)
      then show "(count ?db1 + k) mod 100 \<noteq> 0" by (simp add: add.commute add.left_commute)
    qed
    from False have "0 < n" by simp
    from Suc.IH[OF v1 Suc.prems(2) c1 f1 this]
    have r: "run_calls (replicate n (Put fn sz md5)) ?db1 =
       Inr (map (\<lambda>k. count ?db1 + int k) [0..<n],
          ?db1\<lparr>view := Some ((t @ [?r]) @ map (\<lambda>k. inserted_row ?db1 fn sz md5 (count ?db1 + int k)) [0..<n]),
     in_transaction := True, count := count ?db1 + int n\<rparr>)" .
    have m1: "map (\<lambda>k. count db + int k) [0..<Suc n] = count db # map (\<lambda>k. count ?db1 + int k) [0..<n]"
      by (simp add: upt_rec[of 0 "Suc n"] map_Suc_upt[symmetric] del: upt_Suc)
    have m2: "map (\<lambda>k. inserted_row db fn sz md5 (count db + int k)) [0..<Suc n] =
      ?r # map (\<lambda>k. inserted_row ?db1 fn sz md5 (count ?db1 + int k)) [0..<n]"
      by (simp add: upt_rec[of 0 "Suc n"] map_Suc_upt[symmetric] inserted_row_def del: upt_Suc)
    show ?thesis
      using r by (simp add: p m1 m2 del: upt_Suc)
  qed
qed

lemma run_calls_append:
  "run_calls (a @ b) db =
     (case run_calls a db of
        Inl e \<Rightarrow> Inl e
      | Inr (ids1, db1) \<Rightarrow>
          (case run_calls b db1 of Inl e \<Rightarrow> Inl e | Inr (ids2, db2) \<Rightarrow> Inr (ids1 @ ids2, db2)))"
proof (induction a arbitrary: db)
  case Nil
  show ?case by (simp split: sum.splits prod.splits)
next
  case (Cons c a)
  show ?case by (cases c) (simp_all add: Cons.IH split: sum.splits prod.splits)
qed

section \<open>Claims about the Hash Index\<close>

text \<open>
  C7. For a table with unique ids (the primary key), \<open>remove_duplicates()\<close> leaves
  exactly the rows whose id is the largest among the rows with the same filename
  and the same md5 (strings compared exactly, so case-sensitively), in their old
  order: every other row of a group is deleted and a row alone in its group stays.
  The call ends by committing: the file holds what the connection sees.
\<close>

theorem remove_duplicates_keeps_group_maximum:
  assumes "view db = Some t" and "distinct (map row_id t)"
  shows "\<exists>db'. remove_duplicates db = Inr db' \<and>
     view db' = Some (filter (\<lambda>r. \<forall>s \<in> set t.
        row_filename s = row_filename r \<and> row_md5 s = row_md5 r \<longrightarrow> row_id s \<le> row_id r) t) \<and>
     disk db' = view db' \<and> \<not> in_transaction db'"
proof -
  from remove_duplicates_succeeds[OF assms(1)] obtain db' where r: "remove_duplicates db = Inr db'"
    by blast
  from remove_duplicates_result[OF r] assms(1)
  have v: "view db' = Some (delete_not_in_group_max t)"
    and d: "disk db' = view db'" "\<not> in_transaction db'" by auto
  have "delete_not_in_group_max t = filter (\<lambda>r. \<forall>s \<in> set t.
        row_filename s = row_filename r \<and> row_md5 s = row_md5 r \<longrightarrow> row_id s \<le> row_id r) t"
    unfolding delete_not_in_group_max_def
    by (rule filter_cong[OF refl]) (simp add: kept_iff[OF assms(2)] same_group_def)
  with r v d show ?thesis by simp
qed

text \<open>
  The rows (1, A, h1), (2, A, h1), (3, B, h2) of the specification's example:
  row 1 is deleted, rows 2 and 3 stay, and the result is committed.
\<close>

theorem remove_duplicates_keeps_group_maximum_witness:
  "remove_duplicates (connect (Some
      [\<lparr>row_id = 1, row_filename = ''A'', row_size = 7, row_md5 = ''0123456789abcdef0123456789abcdef''\<rparr>,
       \<lparr>row_id = 2, row_filename = ''A'', row_size = 7, row_md5 = ''0123456789abcdef0123456789abcdef''\<rparr>,
       \<lparr>row_id = 3, row_filename = ''B'', row_size = 9, row_md5 = ''fedcba9876543210fedcba9876543210''\<rparr>]))
   = Inr \<lparr>disk = Some
      [\<lparr>row_id = 2, row_filename = ''A'', row_size = 7, row_md5 = ''0123456789abcdef0123456789abcdef''\<rparr>,
       \<lparr>row_id = 3, row_filename = ''B'', row_size = 9, row_md5 = ''fedcba9876543210fedcba9876543210''\<rparr>],
     view = Some
      [\<lparr>row_id = 2, row_filename = ''A'', row_size = 7, row_md5 = ''0123456789abcdef0123456789abcdef''\<rparr>,
       \<lparr>row_id = 3, row_filename = ''B'', row_size = 9, row_md5 = ''fedcba9876543210fedcba9876543210''\<rparr>],
     in_transaction = False, count = 0, force_casefold = False\<rparr>"
proof -
  let ?t = "[\<lparr>row_id = 1, row_filename = ''A'', row_size = 7, row_md5 = ''0123456789abcdef0123456789abcdef''\<rparr>,
       \<lparr>row_id = 2, row_filename = ''A'', row_size = 7, row_md5 = ''0123456789abcdef0123456789abcdef''\<rparr>,
       \<lparr>row_id = 3, row_filename = ''B'', row_size = 9, row_md5 = ''fedcba9876543210fedcba9876543210''\<rparr>]"
  have v: "view (connect (Some ?t)) = Some ?t" by (simp add: connect_def)
  have d: "distinct (map row_id ?t)" by simp
  from remove_duplicates_keeps_group_maximum[OF v d]
  obtain db' where r: "remove_duplicates (connect (Some ?t)) = Inr db'"
    and w: "view db' = Some (filter (\<lambda>r. \<forall>s \<in> set ?t.
        row_filename s = row_filename r \<and> row_md5 s = row_md5 r \<longrightarrow> row_id s \<le> row_id r) ?t)"
    and k: "disk db' = view db'" "\<not> in_transaction db'" by blast
  from remove_duplicates_result[OF r] have c: "count db' = 0" "force_casefold db' = False"
    by (simp_all add: connect_def)
  from w have "view db' = Some
      [\<lparr>row_id = 2, row_filename = ''A'', row_size = 7, row_md5 = ''0123456789abcdef0123456789abcdef''\<rparr>,
       \<lparr>row_id = 3, row_filename = ''B'', row_size = 9, row_md5 = ''fedcba9876543210fedcba9876543210''\<rparr>]"
    by simp
  with r k c show ?thesis by (cases db') simp
qed

text \<open>
  C8, as the claim states it, fails. On an empty store \<open>initialize\<close> sets the
  counter to 1; of 100 inserts the 99th one makes the counter 100 and commits,
  and the 100th one does not: a process that dies after the 100th insert leaves
  the rows 1 to 99 in the file.
\<close>

theorem flush_after_hundredth_insert_counterexample:
  "power_loss (replicate 100 (Put ''a.u'' 1 ''0123456789abcdef0123456789abcdef'')) None
     = Inr (Some (map (\<lambda>k. \<lparr>row_id = 1 + int k, row_filename = ''a.u'', row_size = 1,
           row_md5 = ''0123456789abcdef0123456789abcdef''\<rparr>) [0..<99]))"
proof -
  let ?h = "''0123456789abcdef0123456789abcdef''"
  let ?p = "Put ''a.u'' 1 ?h"
  let ?mk = "\<lambda>k. \<lparr>row_id = 1 + int k, row_filename = ''a.u'', row_size = 1, row_md5 = ?h\<rparr>"
  define db0 where "db0 = \<lparr>disk = Some [], view = Some [], in_transaction = False, count = 1, force_casefold = False\<rparr>"
  have i: "initialize False (connect None) = Inr db0"
    by (simp add: initialize_def connect_def exec_create_table_def autocommit_def
        exec_select_max_id_def max_id_def Let_def db0_def)
  have v0: "view db0 = Some []" and c0: "count db0 = next_free_id []"
    by (simp_all add: db0_def next_free_id_Nil)
  have f0: "\<forall>k \<in> {1..int 98}. (count db0 + k) mod 100 \<noteq> 0"
    by (auto simp: db0_def)
  define db98 where "db98 = db0\<lparr>view := Some (map ?mk [0..<98]), in_transaction := True, count := 99\<rparr>"
  have "run_calls (replicate 98 ?p) db0 = Inr (map (\<lambda>k. count db0 + int k) [0..<98],
          db0\<lparr>view := Some ([] @ map (\<lambda>k. inserted_row db0 ''a.u'' 1 ?h (count db0 + int k)) [0..<98]),
             in_transaction := True, count := count db0 + int 98\<rparr>)"
    by (rule puts_no_flush[OF v0 _ c0 f0]) simp_all
  then have r98: "run_calls (replicate 98 ?p) db0 = Inr (map (\<lambda>k. 1 + int k) [0..<98], db98)"
    by (simp add: db98_def db0_def inserted_row_def)
  have v98: "view db98 = Some (map ?mk [0..<98])" by (simp add: db98_def)
  have n98: "next_free_id (map ?mk [0..<98]) = 99"
    using run_calls_ids[OF r98 v0 c0] v98 by (auto simp: db98_def)
  define db99 where "db99 = db98\<lparr>disk := Some (map ?mk [0..<99]), view := Some (map ?mk [0..<99]),
      in_transaction := False, count := 100\<rparr>"
  have "put ''a.u'' 1 ?h db98 = Inr (db98\<lparr>disk := Some (map ?mk [0..<98] @ [inserted_row db98 ''a.u'' 1 ?h (count db98)]),
     view := Some (map ?mk [0..<98] @ [inserted_row db98 ''a.u'' 1 ?h (count db98)]),
     in_transaction := False, count := count db98 + 1\<rparr>)"
    by (rule put_flush[OF v98]) (simp_all add: n98, simp_all add: db98_def)
  moreover have u99: "[0..<99] = [0..<98] @ [98::nat]"
  proof -
    have "[0..<Suc 98] = [0..<98] @ [98::nat]" by (rule upt_Suc_append) simp
    then show ?thesis by simp
  qed
  ultimately have p99: "put ''a.u'' 1 ?h db98 = Inr db99"
    by (simp add: db99_def db98_def db0_def inserted_row_def)
  have v99: "view db99 = Some (map ?mk [0..<99])" by (simp add: db99_def)
  have n99: "next_free_id (map ?mk [0..<99]) = 100"
    by (simp add: u99 next_free_id_snoc n98)
  have "put ''a.u'' 1 ?h db99 = Inr (db99\<lparr>view := Some (map ?mk [0..<99] @ [inserted_row db99 ''a.u'' 1 ?h (count db99)]),
     in_transaction := True, count := count db99 + 1\<rparr>)"
    by (rule put_no_flush[OF v99]) (simp_all add: n99, simp_all add: db99_def)
  then have p100: "\<exists>db100. put ''a.u'' 1 ?h db99 = Inr db100 \<and> disk db100 = Some (map ?mk [0..<99])"
    by (simp add: db99_def)
  then obtain db100 where p100: "put ''a.u'' 1 ?h db99 = Inr db100" "disk db100 = Some (map ?mk [0..<99])" by blast
  have "replicate (98 + 2) ?p = replicate 98 ?p @ replicate 2 ?p" by (rule replicate_add)
  moreover have "replicate 2 ?p = [?p, ?p]" by (simp add: numeral_2_eq_2)
  ultimately have "replicate 100 ?p = replicate 98 ?p @ [?p, ?p]" by simp
  then have "run_calls (replicate 100 ?p) db0 = Inr (map (\<lambda>k. 1 + int k) [0..<98] @ [count db98, count db99], db100)"
    by (simp only: run_calls_append r98 run_calls.simps p99 p100 sum.case prod.case append.simps)
  then show ?thesis by (simp add: power_loss_def i p100 del: upt_Suc replicate_Suc)
qed

text \<open>
  C8, amended. \<open>put\<close> commits exactly when the counter it has just incremented,
  the id of the next row, is a multiple of 100: the insert of a row whose id is
  99 modulo 100 is flushed together with everything before it, and any other
  insert leaves the file as it was. When the inserts flush therefore depends on
  the largest id that \<open>initialize\<close> found, not on the number of inserts made.
  \<open>commit()\<close> writes the connection's view to the file at any time.
\<close>

theorem implicit_flush_follows_next_id:
  "(put fn sz md5 db = Inr db' \<longrightarrow>
      count db' = count db + 1 \<and>
      (if count db' mod 100 = 0 then disk db' = view db' else disk db' = disk db)) \<and>
   disk (commit db) = view db \<and> view (commit db) = view db"
proof -
  have "count db' = count db + 1 \<and>
      (if count db' mod 100 = 0 then disk db' = view db' else disk db' = disk db)"
    if "put fn sz md5 db = Inr db'"
    using put_result[OF that] by (auto split: if_splits)
  then show ?thesis by (simp add: commit_def)
qed

text \<open>
  A store whose largest id is 98: the first insert gets the id 99, makes the
  counter 100 and is committed at once.
\<close>

theorem implicit_flush_follows_next_id_witness:
  "\<exists>db'. put ''a.u'' 1 ''0123456789abcdef0123456789abcdef''
       \<lparr>disk = Some [], view = Some [], in_transaction = False, count = 99, force_casefold = False\<rparr>
       = Inr db' \<and> count db' = 100 \<and> disk db' = view db' \<and>
     view db' = Some [\<lparr>row_id = 99, row_filename = ''a.u'', row_size = 1,
       row_md5 = ''0123456789abcdef0123456789abcdef''\<rparr>]"
proof -
  let ?db = "\<lparr>disk = Some [], view = Some [], in_transaction = False, count = 99, force_casefold = False\<rparr>"
  obtain db' where p: "put ''a.u'' 1 ''0123456789abcdef0123456789abcdef'' ?db = Inr db'"
    by (simp add: put_def exec_insert_def Let_def)
  from put_result[OF p] have v: "view db' = Some [\<lparr>row_id = 99, row_filename = ''a.u'', row_size = 1,
       row_md5 = ''0123456789abcdef0123456789abcdef''\<rparr>]" by simp
  from implicit_flush_follows_next_id[of "''a.u''" 1 "''0123456789abcdef0123456789abcdef''" ?db db'] p
  have "count db' = 100 \<and> disk db' = view db'" by (auto split: if_splits)
  with p v show ?thesis by blast
qed

text \<open>
  C9. \<open>initialize\<close> sets the counter to one more than the largest id of the
  table, or to 1 on an empty table; \<open>put\<close> gives the new row the counter's
  value and increments the counter. Over a lifetime of the store, any number
  of sessions that each open the file, insert, commit, remove duplicates and
  close, the ids handed out are strictly increasing, so none is used twice, and
  each is larger than every id the file held at the start. Whoever opens the
  file next gets a counter above every id handed out and every id in the table.
\<close>

theorem ids_strictly_increasing_never_reused:
  "(\<exists>db1 t. initialize delete db = Inr db1 \<and> view db1 = Some t \<and>
        count db1 = (if t = [] then 1 else Max (row_id ` set t) + 1)) \<and>
   (put fn sz md5 db = Inr db2 \<longrightarrow>
      (\<exists>t. view db = Some t \<and>
         view db2 = Some (t @ [\<lparr>row_id = count db,
           row_filename = (if force_casefold db then casefold fn else fn),
           row_size = sz, row_md5 = md5\<rparr>]) \<and>
         count db2 = count db + 1)) \<and>
   (lifetime css d = Inr (ids, d') \<longrightarrow>
      sorted_wrt (<) ids \<and>
      (\<forall>i \<in> set ids. \<forall>r \<in> set (table_of d). row_id r < i) \<and>
      (\<exists>db3. initialize False (connect d') = Inr db3 \<and>
         (\<forall>i \<in> set ids. i < count db3) \<and>
         (\<forall>r \<in> set (table_of d). row_id r < count db3) \<and>
         (\<forall>r \<in> set (table_of d'). row_id r < count db3)))"
proof (intro conjI impI)
  from initialize_result[of delete db] obtain db1 where
    i: "initialize delete db = Inr db1"
    "view db1 = Some (if delete then [] else table_of (view db))"
    "count db1 = next_free_id (if delete then [] else table_of (view db))" by blast
  have "next_free_id t = (if t = [] then 1 else Max (row_id ` set t) + 1)" for t
    by (simp add: next_free_id_Nil next_free_id_Max)
  with i show "\<exists>db1 t. initialize delete db = Inr db1 \<and> view db1 = Some t \<and>
        count db1 = (if t = [] then 1 else Max (row_id ` set t) + 1)" by metis
next
  assume "put fn sz md5 db = Inr db2"
  from put_result[OF this]
  show "\<exists>t. view db = Some t \<and>
         view db2 = Some (t @ [\<lparr>row_id = count db,
           row_filename = (if force_casefold db then casefold fn else fn),
           row_size = sz, row_md5 = md5\<rparr>]) \<and>
         count db2 = count db + 1" by auto
next
  assume l: "lifetime css d = Inr (ids, d')"
  from lifetime_ids[OF l] show "sorted_wrt (<) ids" by simp
next
  assume l: "lifetime css d = Inr (ids, d')"
  from lifetime_ids[OF l] have "\<forall>i \<in> set ids. next_free_id (table_of d) \<le> i" by simp
  then show "\<forall>i \<in> set ids. \<forall>r \<in> set (table_of d). row_id r < i"
    using below_next_free_id[of _ "table_of d"] by fastforce
next
  assume l: "lifetime css d = Inr (ids, d')"
  from lifetime_ids[OF l] have b: "\<forall>i \<in> set ids. i < next_free_id (table_of d')"
    "next_free_id (table_of d) \<le> next_free_id (table_of d')" by simp_all
  from initialize_result[of False "connect d'"] obtain db3 where
    i: "initialize False (connect d') = Inr db3" "count db3 = next_free_id (table_of d')"
    by (auto simp: connect_def)
  have "\<forall>r \<in> set (table_of d). row_id r < count db3"
    using below_next_free_id[of _ "table_of d"] b(2) i(2) by fastforce
  moreover have "\<forall>r \<in> set (table_of d'). row_id r < count db3"
    using below_next_free_id[of _ "table_of d'"] i(2) by fastforce
  ultimately show "\<exists>db3. initialize False (connect d') = Inr db3 \<and>
         (\<forall>i \<in> set ids. i < count db3) \<and>
         (\<forall>r \<in> set (table_of d). row_id r < count db3) \<and>
         (\<forall>r \<in> set (table_of d'). row_id r < count db3)"
    using i b(1) by auto
qed

text \<open>
  Two sessions on a new file: two equal rows are inserted and committed, the
  duplicate with id 1 is removed, and after the file is reopened the next
  insert gets the id 3.
\<close>

theorem ids_strictly_increasing_never_reused_witness:
  "lifetime
     [[Put ''a.u'' 5 ''0123456789abcdef0123456789abcdef'',
       Put ''a.u'' 5 ''0123456789abcdef0123456789abcdef'', Commit, RemoveDuplicates],
      [Put ''b.u'' 6 ''fedcba9876543210fedcba9876543210'']] None
   = Inr ([1, 2, 3], Some
      [\<lparr>row_id = 2, row_filename = ''a.u'', row_size = 5, row_md5 = ''0123456789abcdef0123456789abcdef''\<rparr>,
       \<lparr>row_id = 3, row_filename = ''b.u'', row_size = 6, row_md5 = ''fedcba9876543210fedcba9876543210''\<rparr>])
   \<and> sorted_wrt (<) [1, 2, 3 :: int]
   \<and> (\<exists>db3. initialize False (connect (Some
      [\<lparr>row_id = 2, row_filename = ''a.u'', row_size = 5, row_md5 = ''0123456789abcdef0123456789abcdef''\<rparr>,
       \<lparr>row_id = 3, row_filename = ''b.u'', row_size = 6, row_md5 = ''fedcba9876543210fedcba9876543210''\<rparr>]))
       = Inr db3 \<and> 3 < count db3)
   \<and> (\<exists>db2. put ''a.u'' 5 ''0123456789abcdef0123456789abcdef''
        \<lparr>disk = Some [], view = Some [], in_transaction = False, count = 1, force_casefold = False\<rparr>
        = Inr db2 \<and> count db2 = 2 \<and>
        view db2 = Some [\<lparr>row_id = 1, row_filename = ''a.u'', row_size = 5,
          row_md5 = ''0123456789abcdef0123456789abcdef''\<rparr>])"
proof -
  let ?css = "[[Put ''a.u'' 5 ''0123456789abcdef0123456789abcdef'',
       Put ''a.u'' 5 ''0123456789abcdef0123456789abcdef'', Commit, RemoveDuplicates],
      [Put ''b.u'' 6 ''fedcba9876543210fedcba9876543210'']]"
  let ?d = "Some
      [\<lparr>row_id = 2, row_filename = ''a.u'', row_size = 5, row_md5 = ''0123456789abcdef0123456789abcdef''\<rparr>,
       \<lparr>row_id = 3, row_filename = ''b.u'', row_size = 6, row_md5 = ''fedcba9876543210fedcba9876543210''\<rparr>]"
  let ?db = "\<lparr>disk = Some [], view = Some [], in_transaction = False, count = 1, force_casefold = False\<rparr>"
  have l: "lifetime ?css None = Inr ([1, 2, 3], ?d)"
    by code_simp
  obtain db2 where p: "put ''a.u'' 5 ''0123456789abcdef0123456789abcdef'' ?db = Inr db2"
    by (simp add: put_def exec_insert_def Let_def PERIODICALLY_COMMIT_def)
  from ids_strictly_increasing_never_reused[of False ?db "''a.u''" 5
      "''0123456789abcdef0123456789abcdef''" db2 ?css None "[1, 2, 3]" ?d] l p
  have "sorted_wrt (<) [1, 2, 3 :: int]"
    and "\<exists>db3. initialize False (connect ?d) = Inr db3 \<and> (\<forall>i \<in> set [1, 2, 3 :: int]. i < count db3)"
    and "count db2 = 2 \<and> view db2 = Some [\<lparr>row_id = 1, row_filename = ''a.u'', row_size = 5,
          row_md5 = ''0123456789abcdef0123456789abcdef''\<rparr>]"
    by (blast, blast, simp)
  with l p show ?thesis by auto
qed

section \<open>Facts about the library models\<close>

subsection \<open>zlib at the streams used below\<close>

lemma syms_of_len_replicate: "syms_of_len (replicate n v) l = (if v = l then [0..<n] else [])"
proof (cases "v = l")
  case True
  have "filter (\<lambda>s. replicate n v ! s = v) [0..<n] = [0..<n]"
    by (rule filter_True) simp
  with True show ?thesis by (simp add: syms_of_len_def)
next
  case False
  have "filter (\<lambda>s. replicate n v ! s = l) [0..<n] = []"
    using False by (simp add: filter_empty_conv)
  with False show ?thesis by (simp add: syms_of_len_def)
qed

lemma syms_of_len_append:
  "syms_of_len (xs @ ys) l = syms_of_len xs l @ map (\<lambda>s. length xs + s) (syms_of_len ys l)"
proof -
  let ?a = "length xs" and ?b = "length ys"
  let ?P = "\<lambda>s. (xs @ ys) ! s = l"
  have u: "[0..<?a + ?b] = [0..<?a] @ [?a..<?a + ?b]"
    using upt_add_eq_append[of 0 ?a ?b] by simp
  have m: "[?a..<?a + ?b] = map (\<lambda>s. ?a + s) [0..<?b]"
    using map_add_upt[of ?a ?b] by (simp add: add.commute)
  have 1: "filter ?P [0..<?a] = filter (\<lambda>s. xs ! s = l) [0..<?a]"
    by (rule filter_cong[OF refl]) (simp add: nth_append)
  have 2: "filter ?P (map (\<lambda>s. ?a + s) [0..<?b]) = map (\<lambda>s. ?a + s) (filter (\<lambda>s. ys ! s = l) [0..<?b])"
    unfolding filter_map comp_def by simp
  show ?thesis
    unfolding syms_of_len_def length_append u filter_append 1 m 2 ..
qed

lemma decode_fixed_end_of_block:
  "decode fixed_lencode (False # False # False # False # False # False # False # bits) = Some (256, bits)"
  by (simp add: decode_def fixed_lencode_def syms_of_len_append syms_of_len_replicate Let_def)

text \<open>
  The shortest deflate stream: one final block with the fixed codes that holds
  the end-of-block symbol only (the bytes 03 00).
\<close>

lemma inflate_empty_block:
  "inflate (True # True # False # False # False # False # False # False # False # False # bits) out
     = Some (bits, out)"
  by (simp add: inflate.simps take_bits_def inflate_block_def inflate_codes.simps
      decode_fixed_end_of_block)

lemma bits_of_empty_deflate:
  "bits_of_bytes [3, 0, 0, 0, 0, 1] =
   [True, True, False, False, False, False, False, False,
    False, False, False, False, False, False, False, False,
    False, False, False, False, False, False, False, False,
    False, False, False, False, False, False, False, False,
    False, False, False, False, False, False, False, False,
    True, False, False, False, False, False, False, False]"
  by (simp add: bits_of_bytes_def bits_of_byte_def)

text \<open>\<open>zlib.compress(b'')\<close> is 78 9c 03 00 00 00 00 01.\<close>

lemma zlib_stream_empty_data: "zlib_stream 15 [120, 156, 3, 0, 0, 0, 0, 1] = Some []"
  by (simp add: zlib_stream_def bits_of_empty_deflate inflate_empty_block take_bytes_def
      be32_def adler32_def)

text \<open>\<open>zlib.compress(b'abc', 0)\<close>: a stored block.\<close>

lemma zlib_stream_abc:
  "zlib_stream 15 [120, 1, 1, 3, 0, 252, 255, 97, 98, 99, 2, 77, 1, 39] = Some [97, 98, 99]"
  by (simp add: zlib_stream_def bits_of_bytes_def bits_of_byte_def inflate.simps take_bits_def
      inflate_block_def inflate_stored_def take_bytes_def be32_def adler32_def)

lemma zlib_stream_no_input: "zlib_stream 15 [] = None"
  by (simp add: zlib_stream_def)

lemma zlib_stream_raw_deflate: "zlib_stream 15 [3, 0] = None"
  by (simp add: zlib_stream_def)

lemma raw_stream_empty_data: "raw_stream [3, 0] = Some []"
proof -
  have "bits_of_bytes [3, 0] =
    [True, True, False, False, False, False, False, False,
     False, False, False, False, False, False, False, False]"
    by (simp add: bits_of_bytes_def bits_of_byte_def)
  then show ?thesis by (simp add: raw_stream_def inflate_empty_block)
qed

lemma zlib_decompress_empty_data: "zlib_decompress [120, 156, 3, 0, 0, 0, 0, 1] 15 (int us) = Inr []"
  by (simp add: zlib_decompress_def zlib_stream_empty_data)

lemma zlib_decompress_abc:
  "zlib_decompress [120, 1, 1, 3, 0, 252, 255, 97, 98, 99, 2, 77, 1, 39] 15 (int us) = Inr [97, 98, 99]"
  by (simp add: zlib_decompress_def zlib_stream_abc)

lemma zlib_decompress_no_input: "zlib_decompress [] 15 (int us) = Inl ZlibError"
  by (simp add: zlib_decompress_def zlib_stream_no_input)

lemma zlib_decompress_15:
  "zlib_decompress data 15 (int us) =
     (case zlib_stream 15 data of None \<Rightarrow> Inl ZlibError | Some out \<Rightarrow> Inr out)"
  by (simp add: zlib_decompress_def)

subsection \<open>MD5\<close>

lemma md5_hexdigest_length: "length (md5_hexdigest m) = 32"
  by (simp add: md5_hexdigest_def hex_of_byte_def word_bytes_def split: prod.splits)

lemma upt_64: "[0..<64] = 0 # 1 # [2..<64]"
proof -
  have "[0..<64] = 0 # [Suc 0..<64]" by (rule upt_conv_Cons) simp
  moreover have "[Suc 0..<64] = Suc 0 # [Suc (Suc 0)..<64]" by (rule upt_conv_Cons) simp
  moreover have "Suc (Suc 0) = 2" by simp
  ultimately show ?thesis by (simp del: upt_Suc upt_rec_numeral)
qed

lemma md5_pad_empty: "md5_pad [] = 128 # replicate 63 0"
proof -
  have "le_bytes 8 0 = replicate 8 0"
    by (simp add: le_bytes_def map_replicate_const)
  moreover have "(119 - length ([] :: byte list) mod 64) mod 64 = 55" by simp
  moreover have "replicate 55 (0 :: byte) @ replicate 8 0 = replicate 63 0"
    by (simp add: replicate_add[symmetric])
  ultimately show ?thesis by (simp add: md5_pad_def)
qed

lemma md5_words_zeros: "md5_words (replicate (4 * n) 0) = replicate n 0"
proof (induction n)
  case 0
  show ?case by simp
next
  case (Suc n)
  have "replicate (4 * Suc n) (0 :: byte) = replicate 4 0 @ replicate (4 * n) 0"
    unfolding replicate_add[symmetric] by simp
  moreover have "replicate 4 (0 :: byte) = [0, 0, 0, 0]" by (simp add: eval_nat_numeral)
  ultimately have "replicate (4 * Suc n) (0 :: byte) = 0 # 0 # 0 # 0 # replicate (4 * n) 0"
    by simp
  then show ?case using Suc by (simp only: md5_words.simps replicate_Suc) (simp add: le32_word_def)
qed

lemma md5_words_empty: "md5_words (128 # replicate 63 0) = 128 # replicate 15 0"
proof -
  have "replicate 63 (0 :: byte) = replicate 3 0 @ replicate 60 0"
    unfolding replicate_add[symmetric] by simp
  moreover have "replicate 3 (0 :: byte) = [0, 0, 0]" by (simp add: eval_nat_numeral)
  ultimately have e: "128 # replicate 63 (0 :: byte) = 128 # 0 # 0 # 0 # replicate 60 0"
    by simp
  have z: "md5_words (replicate 60 0) = replicate 15 0"
    using md5_words_zeros[of 15] by simp
  show ?thesis unfolding e md5_words.simps z by (simp add: le32_word_def)
qed

lemma md5_block_empty:
  "md5_block (128 # replicate 63 0) (0x67452301, 0xefcdab89, 0x98badcfe, 0x10325476)
     = (0xd98c1dd4, 0x04b2008f, 0x980980e9, 0x7e42f8ec)"
  unfolding md5_block_def md5_words_empty upt_64
  by (simp add: md5_K_def md5_s_def rotl32_def Let_def)

text \<open>The digest of the empty message, as RFC 1321 lists it.\<close>

lemma md5_hexdigest_empty: "md5_hexdigest [] = ''d41d8cd98f00b204e9800998ecf8427e''"
proof -
  have "md5_blocks (md5_pad []) (0x67452301, 0xefcdab89, 0x98badcfe, 0x10325476)
     = (0xd98c1dd4, 0x04b2008f, 0x980980e9, 0x7e42f8ec)"
    unfolding md5_pad_empty
    by (subst md5_blocks.simps, simp add: md5_block_empty) (subst md5_blocks.simps, simp)
  then show ?thesis
    by (simp add: md5_hexdigest_def hex_of_byte_def hexdigit_def word_bytes_def)
qed

section \<open>Facts about check_one_file and scan_directory\<close>

subsection \<open>Chunk headers and the loop over a compressed file\<close>

lemma le_bytes_4:
  "le_bytes 4 n = [of_nat n, of_nat (n div 256), of_nat (n div 65536), of_nat (n div 16777216)]"
proof -
  have "[0..<4] = 0 # [Suc 0..<4]" by (rule upt_conv_Cons) simp
  moreover have "[Suc 0..<4] = Suc 0 # [Suc (Suc 0)..<4]" by (rule upt_conv_Cons) simp
  moreover have "Suc (Suc 0) = 2" by simp
  ultimately have "[0..<4] = [0, 1, 2, 3]" by (simp del: upt_Suc)
  then show ?thesis by (simp add: le_bytes_def)
qed

lemma length_le_bytes: "length (le_bytes n v) = n"
  by (simp add: le_bytes_def)

lemma unat_of_nat_byte: "unat (of_nat k :: byte) = k mod 256"
  by (simp add: unat_of_nat)

lemma le32_le_bytes: "n < 2 ^ 32 \<Longrightarrow> le32 (le_bytes 4 n) = n"
proof -
  assume n: "n < 2 ^ 32"
  define q1 where "q1 = n div 256"
  define q2 where "q2 = q1 div 256"
  define q3 where "q3 = q2 div 256"
  have d2: "n div 65536 = q2" unfolding q2_def q1_def by (simp add: div_mult2_eq[symmetric])
  have d3: "n div 16777216 = q3" unfolding q3_def q2_def q1_def by (simp add: div_mult2_eq[symmetric])
  have "q3 < 256" using n unfolding d3[symmetric] by simp
  then have m3: "q3 mod 256 = q3" by simp
  have "le32 (le_bytes 4 n) = n mod 256 + 256 * (q1 mod 256 + 256 * (q2 mod 256 + 256 * (q3 mod 256)))"
    by (simp add: le_bytes_4 le32_def unat_of_nat_byte d2 d3 flip: q1_def)
  also have "q2 mod 256 + 256 * (q3 mod 256) = q2" unfolding m3 unfolding q3_def by simp
  also have "q1 mod 256 + 256 * q2 = q1" unfolding q2_def by simp
  also have "n mod 256 + 256 * q1 = n" unfolding q1_def by simp
  finally show ?thesis .
qed

lemma decompress_loop_done:
  "fs \<le> 0 \<Longrightarrow> decompress_loop fn fs f sz h chunks = ([], Inr (Some (sz, h)))"
  by (subst decompress_loop.simps) simp

lemma decompress_loop_eof:
  "0 < fs \<Longrightarrow> length f < 8 \<Longrightarrow>
   decompress_loop fn fs f sz h chunks = ([ExpectedEOF fn chunks], Inr (Some (sz, h)))"
  by (subst decompress_loop.simps) simp

text \<open>One pass of the loop over a header that can be read.\<close>

lemma decompress_loop_header:
  assumes "0 < fs" and "8 \<le> length f"
  shows "decompress_loop fn fs f sz h chunks =
     (let cs = le32 (take 4 f); us = le32 (take 4 (drop 4 f)) in
      if length f < 8 + cs then (validate_chunk fn cs us @ [UnexpectedEOF fn chunks], Inr None)
      else
        (case zlib_decompress (take cs (drop 8 f)) 15 (int us) of
           Inl e \<Rightarrow> (validate_chunk fn cs us, Inl e)
         | Inr data \<Rightarrow>
             (case decompress_loop fn (fs - (8 + int cs)) (drop cs (drop 8 f)) (sz + us)
                     (h @ data) (chunks + 1)
              of (lg', r) \<Rightarrow> (validate_chunk fn cs us @ lg', r))))"
proof (cases "length f < 8 + le32 (take 4 f)")
  case True
  then have "length (take (le32 (take 4 f)) (drop 8 f)) \<noteq> le32 (take 4 f)"
    using assms(2) by auto
  with True assms show ?thesis
    by (subst decompress_loop.simps) (simp add: Let_def del: length_take)
next
  case False
  then have "length (take (le32 (take 4 f)) (drop 8 f)) = le32 (take 4 f)"
    using assms(2) by auto
  with False assms show ?thesis
    by (subst decompress_loop.simps) (simp add: Let_def del: length_take drop_drop)
qed

lemma chunk_bytes_parts:
  assumes "us < 2 ^ 32" "length p < 2 ^ 32"
  shows "le32 (take 4 (chunk_bytes (us, p) @ rest)) = length p"
    and "le32 (take 4 (drop 4 (chunk_bytes (us, p) @ rest))) = us"
    and "take (length p) (drop 8 (chunk_bytes (us, p) @ rest)) = p"
    and "drop (length p) (drop 8 (chunk_bytes (us, p) @ rest)) = rest"
    and "length (chunk_bytes (us, p)) = 8 + length p"
  using assms by (simp_all add: chunk_bytes_def length_le_bytes le32_le_bytes)

text \<open>One pass of the loop over a whole chunk, followed by the rest of the file.\<close>

lemma decompress_loop_chunk:
  assumes "0 < fs" "us < 2 ^ 32" "length p < 2 ^ 32"
  shows "decompress_loop fn fs (chunk_bytes (us, p) @ rest) sz h chunks =
     (case zlib_decompress p 15 (int us) of
        Inl e \<Rightarrow> (validate_chunk fn (length p) us, Inl e)
      | Inr data \<Rightarrow>
          (case decompress_loop fn (fs - (8 + int (length p))) rest (sz + us) (h @ data) (chunks + 1)
           of (lg', r) \<Rightarrow> (validate_chunk fn (length p) us @ lg', r)))"
proof -
  have "8 \<le> length (chunk_bytes (us, p) @ rest)"
    by (simp add: chunk_bytes_def length_le_bytes)
  from decompress_loop_header[OF assms(1) this, of fn sz h chunks]
  have "decompress_loop fn fs (chunk_bytes (us, p) @ rest) sz h chunks =
      (if length (chunk_bytes (us, p) @ rest) < 8 + length p
       then (validate_chunk fn (length p) us @ [UnexpectedEOF fn chunks], Inr None)
       else
        (case zlib_decompress p 15 (int us) of
           Inl e \<Rightarrow> (validate_chunk fn (length p) us, Inl e)
         | Inr data \<Rightarrow>
             (case decompress_loop fn (fs - (8 + int (length p))) rest (sz + us) (h @ data) (chunks + 1)
              of (lg', r) \<Rightarrow> (validate_chunk fn (length p) us @ lg', r))))"
    by (simp only: chunk_bytes_parts[OF assms(2,3)] Let_def)
  then show ?thesis
    by (simp add: chunk_bytes_parts(5)[OF assms(2,3)])
qed

lemma container_Cons: "container (c # cs) = chunk_bytes c @ container cs"
  by (simp add: container_def)

lemma length_chunk_bytes: "length (chunk_bytes c) = 8 + length (snd c)"
  by (simp add: chunk_bytes_def length_le_bytes)

lemma valid_chunk_inflated:
  "valid_chunk c \<Longrightarrow> zlib_decompress (snd c) 15 (int (fst c)) = Inr (inflated c)"
  by (auto simp: valid_chunk_def inflated_def split: sum.splits)

lemma valid_chunk_nonempty: "valid_chunk c \<Longrightarrow> snd c \<noteq> []"
proof
  assume v: "valid_chunk c" and e: "snd c = []"
  from valid_chunk_inflated[OF v] e zlib_decompress_no_input[of "fst c"] show False by simp
qed

lemma container_append: "container (cs @ ds) = container cs @ container ds"
  by (simp add: container_def)

lemma decompress_loop_valid_prefix:
  assumes "\<forall>c \<in> set cs. valid_chunk c" and "fs = int (length (container cs)) + fs'" and "0 \<le> fs'"
  shows "decompress_loop fn fs (container cs @ rest) sz h k =
     (case decompress_loop fn fs' rest (sz + sum_list (map fst cs))
             (h @ concat (map inflated cs)) (k + length cs)
      of (lg', r) \<Rightarrow> (concat (map (\<lambda>c. validate_chunk fn (length (snd c)) (fst c)) cs) @ lg', r))"
  using assms
proof (induction cs arbitrary: sz h k fs)
  case Nil
  then show ?case by (simp add: container_def split: prod.splits)
next
  case (Cons c cs)
  obtain us p where c: "c = (us, p)" by (cases c)
  from Cons.prems have v: "valid_chunk (us, p)" and vs: "\<forall>c \<in> set cs. valid_chunk c"
    by (simp_all add: c)
  from v have b: "us < 2 ^ 32" "length p < 2 ^ 32" by (simp_all add: valid_chunk_def)
  have pos: "0 < fs" using Cons.prems(2,3) by (simp add: c container_Cons length_chunk_bytes)
  have z: "zlib_decompress p 15 (int us) = Inr (inflated (us, p))"
    using valid_chunk_inflated[OF v] by simp
  have fs: "fs - (8 + int (length p)) = int (length (container cs)) + fs'"
    using Cons.prems(2) by (simp add: c container_Cons length_chunk_bytes)
  have step: "decompress_loop fn fs (chunk_bytes (us, p) @ container cs @ rest) sz h k =
     (case decompress_loop fn (fs - (8 + int (length p))) (container cs @ rest) (sz + us)
             (h @ inflated (us, p)) (k + 1)
      of (lg', r) \<Rightarrow> (validate_chunk fn (length p) us @ lg', r))"
    by (subst decompress_loop_chunk[OF pos b]) (simp only: z sum.case)
  have ih: "decompress_loop fn (fs - (8 + int (length p))) (container cs @ rest) (sz + us)
             (h @ inflated (us, p)) (k + 1) =
     (case decompress_loop fn fs' rest (sz + us + sum_list (map fst cs))
             ((h @ inflated (us, p)) @ concat (map inflated cs)) (k + 1 + length cs)
      of (lg', r) \<Rightarrow> (concat (map (\<lambda>c. validate_chunk fn (length (snd c)) (fst c)) cs) @ lg', r))"
    by (rule Cons.IH[OF vs fs Cons.prems(3)])
  obtain lg r where e: "decompress_loop fn fs' rest (sz + us + sum_list (map fst cs))
             ((h @ inflated (us, p)) @ concat (map inflated cs)) (k + 1 + length cs) = (lg, r)"
    by (cases "decompress_loop fn fs' rest (sz + us + sum_list (map fst cs))
             ((h @ inflated (us, p)) @ concat (map inflated cs)) (k + 1 + length cs)")
  have e': "decompress_loop fn fs' rest (sz + sum_list (map fst ((us, p) # cs)))
             (h @ concat (map inflated ((us, p) # cs))) (k + length ((us, p) # cs)) = (lg, r)"
    using e by (simp add: add.assoc)
  show ?case
    unfolding c container_Cons[of "(us, p)" cs] append_assoc step ih
    using e by (simp add: add.assoc)
qed

lemma header_parts:
  assumes "a < 2 ^ 32" "b < 2 ^ 32"
  shows "le32 (take 4 (le_bytes 4 a @ le_bytes 4 b @ xs)) = a"
    and "le32 (take 4 (drop 4 (le_bytes 4 a @ le_bytes 4 b @ xs))) = b"
    and "length (le_bytes 4 a @ le_bytes 4 b @ xs) = 8 + length xs"
  using assms by (simp_all add: length_le_bytes le32_le_bytes)

text \<open>A header that declares more payload than the file still holds.\<close>

lemma decompress_loop_short_payload:
  assumes "0 < fs" "a < 2 ^ 32" "b < 2 ^ 32" "length q < a"
  shows "decompress_loop fn fs (le_bytes 4 a @ le_bytes 4 b @ q) sz h k =
     (validate_chunk fn a b @ [UnexpectedEOF fn k], Inr None)"
proof -
  let ?f = "le_bytes 4 a @ le_bytes 4 b @ q"
  have 2: "8 \<le> length ?f"
    by (simp add: length_le_bytes)
  from decompress_loop_header[OF assms(1) 2, of fn sz h k] assms(4)
  show ?thesis
    by (simp only: header_parts[OF assms(2,3)] Let_def) simp
qed

lemma check_one_file_uz2:
  assumes "endswith (casefold fn) ''.uz2''" "fs fn = Some (File bs)"
  shows "check_one_file fs fn skip_weird =
     (case decompress_loop fn (int (length bs)) bs 0 [] 0 of
        (lg, Inl e) \<Rightarrow> (CompressedFile fn # lg, Inl e)
      | (lg, Inr None) \<Rightarrow> (CompressedFile fn # lg, Inr (basename (take (length fn - 4) fn), None, None))
      | (lg, Inr (Some (sz, h))) \<Rightarrow>
          (CompressedFile fn # lg,
           Inr (basename (take (length fn - 4) fn), Some sz, Some (md5_hexdigest h))))"
  using assms by (simp add: check_one_file_def getsize_def open_rb_def Let_def)

lemma decompress_loop_container:
  assumes "\<forall>c \<in> set cs. valid_chunk c"
  shows "decompress_loop fn (int (length (container cs))) (container cs) sz h k =
     (concat (map (\<lambda>c. validate_chunk fn (length (snd c)) (fst c)) cs),
      Inr (Some (sz + sum_list (map fst cs), h @ concat (map inflated cs))))"
  using decompress_loop_valid_prefix[OF assms, of "int (length (container cs))" 0 fn "[]" sz h k]
  by (simp add: decompress_loop_done)

lemma butlast_container:
  assumes "valid_chunk (us, p)"
  shows "butlast (container (cs @ [(us, p)])) =
     container cs @ le_bytes 4 (length p) @ le_bytes 4 us @ butlast p"
proof -
  have "p \<noteq> []" using valid_chunk_nonempty[OF assms] by simp
  then show ?thesis
    by (simp add: container_append container_def chunk_bytes_def butlast_append)
qed

lemma scan_loop_no_hash:
  assumes "isfile fs (join fp n)" "snd (check_one_file fs (join fp n) True) = Inr (r, sz, None)"
  shows "snd (scan_loop fs fp (n # ns) rfn db) = snd (scan_loop fs fp ns (Some r) db)"
  using assms by (cases "check_one_file fs (join fp n) True") (simp add: Let_def split: prod.splits)

subsection \<open>The payload of a chunk\<close>

lemma validate_chunk_level:
  "e \<in> set (validate_chunk fn cs us) \<Longrightarrow> level e = (if 33096 < cs \<or> 32768 < us then 2 else 1)"
  by (auto simp: validate_chunk_def split: if_splits)

text \<open>One pass of the loop over a header whose payload is all there: only the result.\<close>

lemma decompress_loop_payload:
  assumes "0 < fs" and "8 + le32 (take 4 f) \<le> length f"
  shows "snd (decompress_loop fn fs f sz h chunks) =
     (case zlib_decompress (take (le32 (take 4 f)) (drop 8 f)) 15 (int (le32 (take 4 (drop 4 f)))) of
        Inl e \<Rightarrow> Inl e
      | Inr data \<Rightarrow>
          snd (decompress_loop fn (fs - (8 + int (le32 (take 4 f)))) (drop (le32 (take 4 f)) (drop 8 f))
                 (sz + le32 (take 4 (drop 4 f))) (h @ data) (chunks + 1)))"
proof -
  from assms(2) have 8: "8 \<le> length f" and n: "\<not> length f < 8 + le32 (take 4 f)" by simp_all
  show ?thesis
    unfolding decompress_loop_header[OF assms(1) 8] Let_def
    using n by (simp split: sum.splits prod.splits)
qed

lemma decompress_loop_zero_compressed:
  assumes "0 < fs" and "8 \<le> length f" and "le32 (take 4 f) = 0"
  shows "snd (decompress_loop fn fs f sz h chunks) = Inl ZlibError"
  using decompress_loop_payload[of fs f fn sz h chunks] assms
  by (simp add: zlib_decompress_no_input)

lemma check_one_file_uz2_raises:
  assumes "endswith (casefold fn) ''.uz2''" "fs fn = Some (File bs)"
    and "snd (decompress_loop fn (int (length bs)) bs 0 [] 0) = Inl e"
  shows "snd (check_one_file fs fn skip_weird) = Inl e"
  using assms(3) unfolding check_one_file_uz2[where fs=fs, OF assms(1,2)]
  by (cases "decompress_loop fn (int (length bs)) bs 0 [] 0") (auto split: sum.splits option.splits)

lemma zlib_stream_Cons:
  "zlib_stream w (cmf # flg # rest) =
     (if (256 * unat cmf + unat flg) mod 31 \<noteq> 0 then None
      else if unat cmf mod 16 \<noteq> 8 then None
      else if w < unat cmf div 16 + 8 then None
      else if bit flg 5 then None
      else
        (case inflate (bits_of_bytes rest) [] of
           None \<Rightarrow> None
         | Some (bits, out) \<Rightarrow>
             (case take_bytes 4 (drop (length bits mod 8) bits) of
                None \<Rightarrow> None
              | Some (check, bits') \<Rightarrow> if be32 check = adler32 out then Some out else None)))"
  unfolding zlib_stream_def list.case ..

lemma none_chain_Some:
  "(if c1 then None else if c2 then None else if c3 then None else if c4 then None else x) = Some y
   \<Longrightarrow> \<not> c1 \<and> \<not> c2 \<and> \<not> c3 \<and> \<not> c4 \<and> x = Some y"
  by (simp split: if_splits)

lemma zlib_stream_Some:
  assumes "zlib_stream w payload = Some data"
  shows "\<exists>cmf flg rest bits check bits'.
     payload = cmf # flg # rest \<and> (256 * unat cmf + unat flg) mod 31 = 0 \<and> unat cmf mod 16 = 8 \<and>
     inflate (bits_of_bytes rest) [] = Some (bits, data) \<and>
     take_bytes 4 (drop (length bits mod 8) bits) = Some (check, bits') \<and>
     be32 check = adler32 data"
proof (cases payload)
  case Nil
  have "zlib_stream w [] = None" unfolding zlib_stream_def list.case ..
  with assms Nil show ?thesis by simp
next
  case (Cons cmf t)
  show ?thesis
  proof (cases t)
    case Nil
    have "zlib_stream w [cmf] = None" unfolding zlib_stream_def list.case ..
    with assms Cons Nil show ?thesis by simp
  next
    case (Cons flg rest)
    with \<open>payload = cmf # t\<close> have p: "payload = cmf # flg # rest" by simp
    note c = none_chain_Some[OF assms[unfolded p zlib_stream_Cons]]
    note h1 = c[THEN conjunct1]
    note h2 = c[THEN conjunct2, THEN conjunct1]
    note b = c[THEN conjunct2, THEN conjunct2, THEN conjunct2, THEN conjunct2]
    from b obtain bits out where i: "inflate (bits_of_bytes rest) [] = Some (bits, out)"
      by (cases "inflate (bits_of_bytes rest) []") auto
    from b obtain check bits' where
      t: "take_bytes 4 (drop (length bits mod 8) bits) = Some (check, bits')"
      unfolding i option.case prod.case
      by (cases "take_bytes 4 (drop (length bits mod 8) bits)") auto
    from b have e: "be32 check = adler32 out \<and> out = data"
      unfolding i t option.case prod.case by (simp split: if_splits)
    have "payload = cmf # flg # rest \<and> (256 * unat cmf + unat flg) mod 31 = 0 \<and> unat cmf mod 16 = 8 \<and>
     inflate (bits_of_bytes rest) [] = Some (bits, data) \<and>
     take_bytes 4 (drop (length bits mod 8) bits) = Some (check, bits') \<and>
     be32 check = adler32 data"
      using p h1 h2 i t e by simp
    then show ?thesis by (intro exI)
  qed
qed

subsection \<open>The streams and paths of the examples\<close>

lemma valid_chunk_abc: "valid_chunk (3, [120, 1, 1, 3, 0, 252, 255, 97, 98, 99, 2, 77, 1, 39])"
  using zlib_decompress_abc[of 3] by (simp add: valid_chunk_def)

lemma valid_chunk_empty_data: "valid_chunk (0, [120, 156, 3, 0, 0, 0, 0, 1])"
  using zlib_decompress_empty_data[of 0] by (simp add: valid_chunk_def)

lemma inflated_abc: "inflated (3, [120, 1, 1, 3, 0, 252, 255, 97, 98, 99, 2, 77, 1, 39]) = [97, 98, 99]"
  using zlib_decompress_abc[of 3] by (simp add: inflated_def)

lemma inflated_empty_data: "inflated (0, [120, 156, 3, 0, 0, 0, 0, 1]) = []"
  using zlib_decompress_empty_data[of 0] by (simp add: inflated_def)

lemma uz2_name: "endswith (casefold ''Maps/DM-X.ut2.uz2'') ''.uz2''"
  by (simp add: endswith_def casefold_def casefold_char_def)

lemma uz2_basename: "basename (take (length ''Maps/DM-X.ut2.uz2'' - 4) ''Maps/DM-X.ut2.uz2'') = ''DM-X.ut2''"
  by (simp add: basename_def)

lemma join_maps: "join ''Maps'' ''DM-X.ut2.uz2'' = ''Maps/DM-X.ut2.uz2''"
  by (simp add: join_def endswith_def)

lemma one_chunk_file:
  "container [(0, [120, 156, 3, 0, 0, 0, 0, 1])] = [8, 0, 0, 0, 0, 0, 0, 0, 120, 156, 3, 0, 0, 0, 0, 1]"
  by (simp add: container_def chunk_bytes_def le_bytes_4)

subsection \<open>The uncompressed route, names and the scan loop\<close>

lemma container_replicate_length:
  "length (container (replicate n c)) = n * (8 + length (snd c))"
  by (induction n) (simp_all add: container_def length_chunk_bytes)

lemma concat_replicate_Nil: "concat (replicate n []) = []"
  by (induction n) simp_all

lemma check_one_file_plain:
  assumes "\<not> endswith (casefold fn) ''.uz2''"
  shows "check_one_file fs fn skip_weird =
     (let rfn = basename fn;
          known = list_ex (endswith (casefold fn)) known_types;
          lg = (if known then (if endswith (casefold fn) ''uxx'' then [CacheFile] else [])
                else [WeirdFiletype fn])
      in if \<not> known \<and> skip_weird then (lg, Inr (rfn, None, None))
         else
           (case getsize fs fn of
              Inl e \<Rightarrow> (lg, Inl e)
            | Inr sz \<Rightarrow>
                if 2147483647 < sz then (lg @ [HugeFile], Inr (rfn, None, None))
                else
                  (case open_rb fs fn of
                     Inl e \<Rightarrow> (lg, Inl e)
                   | Inr f \<Rightarrow> (lg, Inr (rfn, Some sz, Some (md5_hexdigest (read_blocks f [])))))))"
  using assms by (simp add: check_one_file_def)

lemma plain_name: "\<not> endswith (casefold ''System/Core.u'') ''.uz2''"
  by (simp add: endswith_def casefold_def casefold_char_def)

lemma read_blocks_all: "read_blocks f h = h @ f"
proof (induction f h rule: read_blocks.induct)
  case (1 f h)
  show ?case
  proof (cases "take 32768 f = []")
    case True
    then have "f = []" by (cases f) simp_all
    then show ?thesis by (subst read_blocks.simps) simp
  next
    case False
    have "read_blocks f h = read_blocks (drop 32768 f) (h @ take 32768 f)"
      using False by (subst read_blocks.simps) (simp add: Let_def)
    also have "\<dots> = (h @ take 32768 f) @ drop 32768 f"
      by (rule "1.IH"[OF refl False])
    finally show ?thesis by simp
  qed
qed

lemma basename_no_separator: "CHR ''/'' \<notin> set (basename p)"
  by (auto simp: basename_def dest: set_takeWhileD)

lemma casefold_char_separator: "casefold_char c = CHR ''/'' \<Longrightarrow> c = CHR ''/''"
proof -
  assume a: "casefold_char c = CHR ''/''"
  show ?thesis
  proof (cases "65 \<le> (of_char c :: nat) \<and> (of_char c :: nat) \<le> 90")
    case True
    with a have "char_of ((of_char c :: nat) + 32) = CHR ''/''" by (simp add: casefold_char_def)
    then have "(of_char (char_of ((of_char c :: nat) + 32) :: char) :: nat) = of_char CHR ''/''" by simp
    with True show ?thesis by simp
  next
    case False
    with a show ?thesis by (simp add: casefold_char_def)
  qed
qed

lemma casefold_no_separator: "CHR ''/'' \<notin> set s \<Longrightarrow> CHR ''/'' \<notin> set (casefold s)"
  by (auto simp: casefold_def dest: casefold_char_separator[OF sym])

lemma check_one_file_name:
  assumes "snd (check_one_file fs fn skip_weird) = Inr (rfn, sz, md5)"
  shows "rfn = basename (if endswith (casefold fn) ''.uz2'' then take (length fn - 4) fn else fn)"
proof (cases "endswith (casefold fn) ''.uz2''")
  case True
  show ?thesis
  proof (cases "fs fn")
    case None
    with True assms show ?thesis by (simp add: check_one_file_def getsize_def Let_def)
  next
    case (Some nd)
    show ?thesis
    proof (cases nd)
      case (File bs)
      obtain lg r where d: "decompress_loop fn (int (length bs)) bs 0 [] 0 = (lg, r)"
        by (cases "decompress_loop fn (int (length bs)) bs 0 [] 0")
      from assms show ?thesis
        unfolding check_one_file_uz2[where fs=fs, OF True Some[unfolded File]] d
        using True by (auto split: sum.splits option.splits)
    next
      case (Dir n es)
      with True Some assms show ?thesis
        by (simp add: check_one_file_def getsize_def open_rb_def Let_def)
    qed
  qed
next
  case False
  from assms show ?thesis
    unfolding check_one_file_plain[OF False] using False
    by (auto simp: Let_def split: if_splits sum.splits)
qed

lemma scan_loop_rows:
  assumes "scan_loop fs fp ns rfn db = (lg, Inr db')" and "view db = Some t"
  shows "\<exists>new. view db' = Some (t @ new) \<and> force_casefold db' = force_casefold db \<and>
     (\<forall>r \<in> set new. \<exists>n \<in> set ns.
        row_filename r = (if force_casefold db then casefold (stored_name (join fp n))
                          else stored_name (join fp n)))"
  using assms
proof (induction ns arbitrary: rfn db t lg)
  case Nil
  then show ?case by simp
next
  case (Cons n ns)
  let ?p = "join fp n"
  show ?case
  proof (cases "isfile fs ?p")
    case False
    obtain lg2 r2 where s: "scan_loop fs fp ns rfn db = (lg2, r2)"
      by (cases "scan_loop fs fp ns rfn db")
    with Cons.prems(1) False have "r2 = Inr db'" by (simp add: Let_def)
    from Cons.IH[OF s[unfolded this] Cons.prems(2)] show ?thesis by auto
  next
    case True
    obtain lg1 c where c: "check_one_file fs ?p True = (lg1, c)"
      by (cases "check_one_file fs ?p True")
    show ?thesis
    proof (cases c)
      case (Inl e)
      show ?thesis
      proof (cases rfn)
        case None
        with Cons.prems(1) True c Inl show ?thesis by (simp add: Let_def)
      next
        case (Some old)
        obtain lg2 r2 where s: "scan_loop fs fp ns rfn db = (lg2, r2)"
          by (cases "scan_loop fs fp ns rfn db")
        with Cons.prems(1) True c Inl Some have "r2 = Inr db'" by (simp add: Let_def)
        from Cons.IH[OF s[unfolded this] Cons.prems(2)] show ?thesis by auto
      qed
    next
      case (Inr res)
      obtain rfn' sz md5 where res: "res = (rfn', sz, md5)" by (cases res)
      from c Inr res have "snd (check_one_file fs ?p True) = Inr (rfn', sz, md5)" by simp
      from check_one_file_name[OF this] have nm: "rfn' = stored_name ?p"
        by (simp add: stored_name_def)
      show ?thesis
      proof (cases md5)
        case None
        obtain lg2 r2 where s: "scan_loop fs fp ns (Some rfn') db = (lg2, r2)"
          by (cases "scan_loop fs fp ns (Some rfn') db")
        with Cons.prems(1) True c Inr res None have "r2 = Inr db'" by (simp add: Let_def)
        from Cons.IH[OF s[unfolded this] Cons.prems(2)] show ?thesis by auto
      next
        case (Some m)
        show ?thesis
        proof (cases sz)
          case None
          with Cons.prems(1) True c Inr res Some show ?thesis by (simp add: Let_def)
        next
          case sz: (Some s)
          show ?thesis
          proof (cases "put rfn' (int s) m db")
            case (Inl e)
            with Cons.prems(1) True c Inr res Some sz show ?thesis by (simp add: Let_def)
          next
            case put: (Inr db1)
            obtain lg2 r2 where s2: "scan_loop fs fp ns (Some rfn') db1 = (lg2, r2)"
              by (cases "scan_loop fs fp ns (Some rfn') db1")
            with Cons.prems(1) True c Inr res Some sz put have "r2 = Inr db'"
              by (simp add: Let_def)
            from put_result[OF put] Cons.prems(2)
            have v1: "view db1 = Some (t @ [\<lparr>row_id = count db,
                 row_filename = (if force_casefold db then casefold rfn' else rfn'),
                 row_size = int s, row_md5 = m\<rparr>])"
              and fc: "force_casefold db1 = force_casefold db" by auto
            from Cons.IH[OF s2[unfolded \<open>r2 = Inr db'\<close>] v1] fc nm
            show ?thesis by auto
          qed
        qed
      qed
    qed
  qed
qed

lemma le32_zero: "le32 [0, 0, 0, 0] = 0"
  by (simp add: le32_def)

lemma decompress_loop_zero_header:
  "decompress_loop fn 8 [0, 0, 0, 0, 0, 0, 0, 0] 0 [] 0 = ([ZeroCompressed fn 0], Inl ZlibError)"
  by (subst decompress_loop_header)
     (simp_all add: le32_zero Let_def validate_chunk_def zlib_decompress_no_input[of 0, simplified])

lemma plain_names:
  "\<not> endswith (casefold ''Maps/DM-B.ut2'') ''.uz2''"
  "list_ex (endswith (casefold ''Maps/DM-B.ut2'')) known_types"
  "\<not> endswith (casefold ''Maps/DM-B.ut2'') ''uxx''"
  "basename ''Maps/DM-B.ut2'' = ''DM-B.ut2''"
  "endswith (casefold ''Maps/DM-A.ut2.uz2'') ''.uz2''"
  "basename (take (length ''Maps/DM-A.ut2.uz2'' - 4) ''Maps/DM-A.ut2.uz2'') = ''DM-A.ut2''"
  "join ''Maps'' ''DM-A.ut2.uz2'' = ''Maps/DM-A.ut2.uz2''"
  "join ''Maps'' ''DM-B.ut2'' = ''Maps/DM-B.ut2''"
  by (simp_all add: known_types_def endswith_def casefold_def casefold_char_def basename_def join_def)

lemma check_plain_abc:
  assumes "fs ''Maps/DM-B.ut2'' = Some (File [97, 98, 99])"
  shows "check_one_file fs ''Maps/DM-B.ut2'' True
     = ([], Inr (''DM-B.ut2'', Some 3, Some (md5_hexdigest [97, 98, 99])))"
  unfolding check_one_file_plain[OF plain_names(1)]
  by (simp add: plain_names Let_def getsize_def open_rb_def assms read_blocks_all)

lemma check_zero_header:
  assumes "fs ''Maps/DM-A.ut2.uz2'' = Some (File [0, 0, 0, 0, 0, 0, 0, 0])"
  shows "check_one_file fs ''Maps/DM-A.ut2.uz2'' True
     = ([CompressedFile ''Maps/DM-A.ut2.uz2'', ZeroCompressed ''Maps/DM-A.ut2.uz2'' 0], Inl ZlibError)"
  unfolding check_one_file_uz2[where fs=fs, OF plain_names(5) assms]
  by (simp add: decompress_loop_zero_header)

lemma check_container_abc:
  assumes "fs ''Maps/DM-X.ut2.uz2'' =
    Some (File (container [(3, [120, 1, 1, 3, 0, 252, 255, 97, 98, 99, 2, 77, 1, 39])]))"
  shows "check_one_file fs ''Maps/DM-X.ut2.uz2'' True
     = ([CompressedFile ''Maps/DM-X.ut2.uz2''],
        Inr (''DM-X.ut2'', Some 3, Some (md5_hexdigest [97, 98, 99])))"
proof -
  have v: "\<forall>c \<in> set [(3 :: nat, [120, 1, 1, 3, 0, 252, 255, 97, 98, 99, 2, 77, 1, 39 :: byte])].
      valid_chunk c"
    using valid_chunk_abc by simp
  show ?thesis
    unfolding check_one_file_uz2[where fs=fs, OF uz2_name assms] decompress_loop_container[OF v]
    by (simp only: uz2_basename) (simp add: inflated_abc validate_chunk_def)
qed
section \<open>Claims about the decoder, the classifier and the orchestrator\<close>

text \<open>
  C1, as the claim states it, fails. A container of 268435456 chunks of 16
  bytes, each the zlib stream of the empty string, is a file of 4294967296
  bytes; \<open>check_one_file\<close> decodes it and returns a digest.
\<close>

theorem container_route_has_no_size_check_counterexample:
  "2147483647 < length (container (replicate 268435456 (0, [120, 156, 3, 0, 0, 0, 0, 1]))) \<and>
   snd (check_one_file
      (\<lambda>p. if p = ''Maps/DM-X.ut2.uz2''
           then Some (File (container (replicate 268435456 (0, [120, 156, 3, 0, 0, 0, 0, 1]))))
           else None)
      ''Maps/DM-X.ut2.uz2'' True)
   = Inr (''DM-X.ut2'', Some 0, Some ''d41d8cd98f00b204e9800998ecf8427e'')"
proof -
  let ?c = "(0 :: nat, [120, 156, 3, 0, 0, 0, 0, 1 :: byte])"
  let ?cs = "replicate 268435456 ?c"
  let ?fs = "\<lambda>p. if p = ''Maps/DM-X.ut2.uz2'' then Some (File (container ?cs)) else None"
  have f: "?fs ''Maps/DM-X.ut2.uz2'' = Some (File (container ?cs))" by simp
  have v: "\<forall>c \<in> set ?cs. valid_chunk c"
    using valid_chunk_empty_data by simp
  have s: "sum_list (map fst ?cs) = 0" by simp
  have i: "concat (map inflated ?cs) = []"
    by (simp add: inflated_empty_data concat_replicate_Nil)
  have "snd (check_one_file ?fs ''Maps/DM-X.ut2.uz2'' True)
      = Inr (basename (take (length ''Maps/DM-X.ut2.uz2'' - 4) ''Maps/DM-X.ut2.uz2''),
             Some (sum_list (map fst ?cs)), Some (md5_hexdigest (concat (map inflated ?cs))))"
    unfolding check_one_file_uz2[where fs="?fs", OF uz2_name f] decompress_loop_container[OF v]
    by simp
  then have "snd (check_one_file ?fs ''Maps/DM-X.ut2.uz2'' True)
      = Inr (''DM-X.ut2'', Some 0, Some ''d41d8cd98f00b204e9800998ecf8427e'')"
    unfolding s i uz2_basename md5_hexdigest_empty .
  moreover have "2147483647 < length (container ?cs)"
    by (simp add: container_replicate_length)
  ultimately show ?thesis by simp
qed

text \<open>
  C1, amended. For a file that is not routed to the container decoder and
  whose size exceeds 2147483647 bytes, \<open>check_one_file\<close> returns
  \<open>(rfn, None, None)\<close>. The size is looked at after the routing by
  extension: a known type, or any type when \<open>skip_weird\<close> is off, is refused
  with the log line for a huge file, and an unknown type with \<open>skip_weird\<close> on
  is skipped as such before its size is read. The container route has no size
  check.
\<close>

theorem oversize_check_follows_routing:
  assumes "\<not> endswith (casefold fn) ''.uz2''" and "fs fn = Some (File bs)" and "2147483647 < length bs"
  shows "snd (check_one_file fs fn skip_weird) = Inr (basename fn, None, None) \<and>
     fst (check_one_file fs fn skip_weird) =
       (if list_ex (endswith (casefold fn)) known_types
        then (if endswith (casefold fn) ''uxx'' then [CacheFile] else []) @ [HugeFile]
        else if skip_weird then [WeirdFiletype fn]
        else [WeirdFiletype fn, HugeFile])"
  using assms(2,3) unfolding check_one_file_plain[OF assms(1)]
  by (simp add: getsize_def Let_def)

text \<open>A file of 2147483648 bytes with a known extension.\<close>

theorem oversize_check_follows_routing_witness:
  "check_one_file
      (\<lambda>p. if p = ''System/Core.u'' then Some (File (replicate 2147483648 0)) else None)
      ''System/Core.u'' True
   = ([HugeFile], Inr (''Core.u'', None, None))"
proof -
  let ?fs = "\<lambda>p. if p = ''System/Core.u'' then Some (File (replicate 2147483648 (0 :: byte))) else None"
  have f: "?fs ''System/Core.u'' = Some (File (replicate 2147483648 0))" by simp
  have l: "2147483647 < length (replicate 2147483648 (0 :: byte))" by simp
  have k: "list_ex (endswith (casefold ''System/Core.u'')) known_types"
    by (simp add: known_types_def endswith_def casefold_def casefold_char_def)
  have u: "\<not> endswith (casefold ''System/Core.u'') ''uxx''"
    by (simp add: endswith_def casefold_def casefold_char_def)
  have b: "basename ''System/Core.u'' = ''Core.u''" by (simp add: basename_def)
  from oversize_check_follows_routing[where fs="?fs" and skip_weird=True, OF plain_name f l]
  show ?thesis
    by (simp only: k u b if_True if_False append_Nil prod_eq_iff fst_conv snd_conv)
qed

text \<open>
  C2, as the claim states it, fails. A container of one chunk that declares
  the uncompressed size 0 and carries the zlib stream of the empty string is
  decoded to the end: the zero is logged and \<open>check_one_file\<close> returns a digest.
\<close>

theorem zero_uncompressed_size_counterexample:
  "check_one_file
     (\<lambda>p. if p = ''Maps/DM-X.ut2.uz2''
          then Some (File [8, 0, 0, 0, 0, 0, 0, 0, 120, 156, 3, 0, 0, 0, 0, 1]) else None)
     ''Maps/DM-X.ut2.uz2'' True
   = ([CompressedFile ''Maps/DM-X.ut2.uz2'', ZeroUncompressed ''Maps/DM-X.ut2.uz2'' 0],
      Inr (''DM-X.ut2'', Some 0, Some ''d41d8cd98f00b204e9800998ecf8427e''))"
proof -
  let ?fs = "\<lambda>p. if p = ''Maps/DM-X.ut2.uz2''
          then Some (File [8, 0, 0, 0, 0, 0, 0, 0, 120, 156, 3, 0, 0, 0, 0, 1 :: byte]) else None"
  have f: "?fs ''Maps/DM-X.ut2.uz2'' = Some (File (container [(0, [120, 156, 3, 0, 0, 0, 0, 1])]))"
    by (simp add: one_chunk_file)
  have v: "\<forall>c \<in> set [(0 :: nat, [120, 156, 3, 0, 0, 0, 0, 1 :: byte])]. valid_chunk c"
    using valid_chunk_empty_data by simp
  show ?thesis
    unfolding check_one_file_uz2[where fs="?fs", OF uz2_name f] decompress_loop_container[OF v]
    by (simp only: uz2_basename) (simp add: inflated_empty_data validate_chunk_def md5_hexdigest_empty)
qed

text \<open>
  C2, amended. The validation of a chunk header only logs: it logs at level 2
  (WARN) when a size exceeds its bound, and otherwise at level 1 (ERROR) when
  a size is zero. Whatever the header says, the loop then reads the payload
  and hands it to \<open>zlib.decompress\<close>, and the result of the pass is decided
  there: it is the exception of zlib, or the loop goes on with the data
  appended. With a compressed size of 0 the payload is empty, which zlib
  refuses, so \<open>zlib.error\<close> is raised; there is no outcome of its own for a
  malformed chunk.
\<close>

theorem zero_sizes_are_only_logged:
  "(\<forall>e \<in> set (validate_chunk fn cs us). level e = (if 33096 < cs \<or> 32768 < us then 2 else 1)) \<and>
   (0 < fs \<and> 8 + le32 (take 4 f) \<le> length f \<longrightarrow>
      snd (decompress_loop fn fs f sz h chunks) =
        (case zlib_decompress (take (le32 (take 4 f)) (drop 8 f)) 15 (int (le32 (take 4 (drop 4 f)))) of
           Inl e \<Rightarrow> Inl e
         | Inr data \<Rightarrow>
             snd (decompress_loop fn (fs - (8 + int (le32 (take 4 f))))
                    (drop (le32 (take 4 f)) (drop 8 f))
                    (sz + le32 (take 4 (drop 4 f))) (h @ data) (chunks + 1)))) \<and>
   (0 < fs \<and> 8 \<le> length f \<and> le32 (take 4 f) = 0 \<longrightarrow>
      snd (decompress_loop fn fs f sz h chunks) = Inl ZlibError)"
  using validate_chunk_level[of _ fn cs us] decompress_loop_payload[of fs f fn sz h chunks]
    decompress_loop_zero_compressed[of fs f fn sz h chunks]
  by blast

text \<open>
  An oversize header logs at level 2 and a zero uncompressed size at level 1;
  the chunk with the uncompressed size 0 is decoded, and the header with the
  compressed size 0 ends in \<open>zlib.error\<close>.
\<close>

theorem zero_sizes_are_only_logged_witness:
  "map level (validate_chunk ''a.uz2'' 40000 0) = [2] \<and>
   map level (validate_chunk ''a.uz2'' 8 0) = [1] \<and>
   snd (decompress_loop ''a.uz2'' 16 [8, 0, 0, 0, 0, 0, 0, 0, 120, 156, 3, 0, 0, 0, 0, 1] 0 [] 0)
     = Inr (Some (0, [])) \<and>
   snd (decompress_loop ''a.uz2'' 8 [0, 0, 0, 0, 0, 0, 0, 0] 0 [] 0) = Inl ZlibError"
proof -
  let ?f = "[8, 0, 0, 0, 0, 0, 0, 0, 120, 156, 3, 0, 0, 0, 0, 1 :: byte]"
  let ?z = "[0, 0, 0, 0, 0, 0, 0, 0 :: byte]"
  have l8: "le32 [8, 0, 0, 0] = 8" "le32 [0, 0, 0, 0] = 0"
    by (simp_all add: le32_def)
  note t1 = zero_sizes_are_only_logged[of "''a.uz2''" 40000 0 16 ?f 0 "[]" 0]
  note t2 = zero_sizes_are_only_logged[of "''a.uz2''" 8 0 8 ?z 0 "[]" 0]
  have a: "map level (validate_chunk ''a.uz2'' 40000 0) = [2]"
    using t1 by (simp add: validate_chunk_def)
  have b: "map level (validate_chunk ''a.uz2'' 8 0) = [1]"
    using t2 by (simp add: validate_chunk_def)
  from t1 have "snd (decompress_loop ''a.uz2'' 16 ?f 0 [] 0)
      = snd (decompress_loop ''a.uz2'' 0 [] 0 [] 1)"
    by (simp add: l8 zlib_decompress_empty_data[of 0, simplified])
  then have c: "snd (decompress_loop ''a.uz2'' 16 ?f 0 [] 0) = Inr (Some (0, []))"
    by (simp add: decompress_loop_done)
  from t2 have d: "snd (decompress_loop ''a.uz2'' 8 ?z 0 [] 0) = Inl ZlibError"
    by (simp add: l8 zlib_decompress_no_input[of 0, simplified])
  from a b c d show ?thesis by simp
qed

text \<open>
  C3, as the claim states it, fails. The bytes 03 00 are a raw deflate stream
  (of the empty string), and a chunk with this payload makes
  \<open>check_one_file\<close> raise \<open>zlib.error\<close>.
\<close>

theorem raw_deflate_payload_counterexample:
  "raw_stream [3, 0] = Some [] \<and>
   check_one_file
     (\<lambda>p. if p = ''Maps/DM-X.ut2.uz2'' then Some (File [2, 0, 0, 0, 0, 0, 0, 0, 3, 0]) else None)
     ''Maps/DM-X.ut2.uz2'' True
   = ([CompressedFile ''Maps/DM-X.ut2.uz2'', ZeroUncompressed ''Maps/DM-X.ut2.uz2'' 0], Inl ZlibError)"
proof -
  let ?f = "[2, 0, 0, 0, 0, 0, 0, 0, 3, 0 :: byte]"
  let ?fs = "\<lambda>p. if p = ''Maps/DM-X.ut2.uz2'' then Some (File ?f) else None"
  have f: "?fs ''Maps/DM-X.ut2.uz2'' = Some (File ?f)" by simp
  have l: "le32 [2, 0, 0, 0] = 2" "le32 [0, 0, 0, 0] = 0"
    by (simp_all add: le32_def)
  have z: "zlib_decompress [3, 0] 15 0 = Inl ZlibError"
    by (simp add: zlib_decompress_def zlib_stream_raw_deflate)
  have "decompress_loop ''Maps/DM-X.ut2.uz2'' (int (length ?f)) ?f 0 [] 0
      = ([ZeroUncompressed ''Maps/DM-X.ut2.uz2'' 0], Inl ZlibError)"
    by (subst decompress_loop_header) (simp_all add: l z Let_def validate_chunk_def)
  then show ?thesis
    unfolding check_one_file_uz2[where fs="?fs", OF uz2_name f]
    by (simp add: raw_stream_empty_data)
qed

text \<open>
  C3, amended. The payload of a chunk is passed to \<open>zlib.decompress\<close> with
  \<open>wbits = 15\<close>, that is, it is read as a zlib stream: a payload that is
  accepted starts with the two header bytes of RFC 1950 (a multiple of 31 with
  the method 8), continues with the deflate data and ends, from the next byte
  boundary, with the Adler-32 checksum of the output. The declared
  uncompressed size is passed as the first size of the output buffer and added
  to the size total; the length of the output is not compared with it. When
  zlib refuses the payload, the exception leaves the loop and
  \<open>check_one_file\<close>, so that no digest is returned.
\<close>

theorem payload_is_inflated_as_zlib_stream:
  "(0 < fs \<and> 8 + le32 (take 4 f) \<le> length f \<longrightarrow>
      snd (decompress_loop fn fs f sz h chunks) =
        (case zlib_stream 15 (take (le32 (take 4 f)) (drop 8 f)) of
           None \<Rightarrow> Inl ZlibError
         | Some data \<Rightarrow>
             snd (decompress_loop fn (fs - (8 + int (le32 (take 4 f))))
                    (drop (le32 (take 4 f)) (drop 8 f))
                    (sz + le32 (take 4 (drop 4 f))) (h @ data) (chunks + 1)))) \<and>
   (zlib_stream 15 payload = Some data \<longrightarrow>
      (\<exists>cmf flg rest bits check bits'.
         payload = cmf # flg # rest \<and> (256 * unat cmf + unat flg) mod 31 = 0 \<and>
         unat cmf mod 16 = 8 \<and>
         inflate (bits_of_bytes rest) [] = Some (bits, data) \<and>
         take_bytes 4 (drop (length bits mod 8) bits) = Some (check, bits') \<and>
         be32 check = adler32 data)) \<and>
   (endswith (casefold fn) ''.uz2'' \<and> files fn = Some (File bs) \<and>
    snd (decompress_loop fn (int (length bs)) bs 0 [] 0) = Inl e \<longrightarrow>
      snd (check_one_file files fn skip_weird) = Inl e)"
proof (intro conjI impI)
  assume "0 < fs \<and> 8 + le32 (take 4 f) \<le> length f"
  then show "snd (decompress_loop fn fs f sz h chunks) =
        (case zlib_stream 15 (take (le32 (take 4 f)) (drop 8 f)) of
           None \<Rightarrow> Inl ZlibError
         | Some data \<Rightarrow>
             snd (decompress_loop fn (fs - (8 + int (le32 (take 4 f))))
                    (drop (le32 (take 4 f)) (drop 8 f))
                    (sz + le32 (take 4 (drop 4 f))) (h @ data) (chunks + 1)))"
    using decompress_loop_payload[of fs f fn sz h chunks]
    by (simp add: zlib_decompress_15 split: option.splits)
next
  assume "zlib_stream 15 payload = Some data"
  then show "\<exists>cmf flg rest bits check bits'.
         payload = cmf # flg # rest \<and> (256 * unat cmf + unat flg) mod 31 = 0 \<and>
         unat cmf mod 16 = 8 \<and>
         inflate (bits_of_bytes rest) [] = Some (bits, data) \<and>
         take_bytes 4 (drop (length bits mod 8) bits) = Some (check, bits') \<and>
         be32 check = adler32 data"
    by (rule zlib_stream_Some)
next
  assume "endswith (casefold fn) ''.uz2'' \<and> files fn = Some (File bs) \<and>
    snd (decompress_loop fn (int (length bs)) bs 0 [] 0) = Inl e"
  then show "snd (check_one_file files fn skip_weird) = Inl e"
    using check_one_file_uz2_raises[of fn files bs e skip_weird] by simp
qed

text \<open>
  The chunk with the stored zlib stream of \<open>abc\<close> is decoded; that stream has
  the shape described; the file with the raw deflate payload raises.
\<close>

theorem payload_is_inflated_as_zlib_stream_witness:
  "snd (decompress_loop ''a.uz2'' 22
         [14, 0, 0, 0, 3, 0, 0, 0, 120, 1, 1, 3, 0, 252, 255, 97, 98, 99, 2, 77, 1, 39] 0 [] 0)
     = Inr (Some (3, [97, 98, 99])) \<and>
   (\<exists>cmf flg rest bits check bits'.
      [120, 1, 1, 3, 0, 252, 255, 97, 98, 99, 2, 77, 1, 39] = cmf # flg # rest \<and>
      (256 * unat cmf + unat flg) mod 31 = 0 \<and> unat cmf mod 16 = 8 \<and>
      inflate (bits_of_bytes rest) [] = Some (bits, [97, 98, 99]) \<and>
      take_bytes 4 (drop (length bits mod 8) bits) = Some (check, bits') \<and>
      be32 check = adler32 [97, 98, 99]) \<and>
   snd (check_one_file
          (\<lambda>p. if p = ''Maps/DM-X.ut2.uz2'' then Some (File [2, 0, 0, 0, 0, 0, 0, 0, 3, 0]) else None)
          ''Maps/DM-X.ut2.uz2'' True)
     = Inl ZlibError"
proof -
  let ?f = "[14, 0, 0, 0, 3, 0, 0, 0, 120, 1, 1, 3, 0, 252, 255, 97, 98, 99, 2, 77, 1, 39 :: byte]"
  let ?p = "[120, 1, 1, 3, 0, 252, 255, 97, 98, 99, 2, 77, 1, 39 :: byte]"
  let ?g = "[2, 0, 0, 0, 0, 0, 0, 0, 3, 0 :: byte]"
  let ?fs = "\<lambda>p. if p = ''Maps/DM-X.ut2.uz2'' then Some (File ?g) else None"
  have l: "le32 [14, 0, 0, 0] = 14" "le32 [3, 0, 0, 0] = 3" "le32 [2, 0, 0, 0] = 2" "le32 [0, 0, 0, 0] = 0"
    by (simp_all add: le32_def)
  note t = payload_is_inflated_as_zlib_stream[where fs=22 and f="?f" and fn="''a.uz2''" and sz=0
      and h="[]" and chunks=0 and payload="?p" and data="[97, 98, 99]"]
  from t have "snd (decompress_loop ''a.uz2'' 22 ?f 0 [] 0)
      = snd (decompress_loop ''a.uz2'' 0 [] 3 [97, 98, 99] 1)"
    by (simp add: l zlib_stream_abc)
  then have a: "snd (decompress_loop ''a.uz2'' 22 ?f 0 [] 0) = Inr (Some (3, [97, 98, 99]))"
    by (simp add: decompress_loop_done)
  from t zlib_stream_abc
  have b: "\<exists>cmf flg rest bits check bits'.
      ?p = cmf # flg # rest \<and>
      (256 * unat cmf + unat flg) mod 31 = 0 \<and> unat cmf mod 16 = 8 \<and>
      inflate (bits_of_bytes rest) [] = Some (bits, [97, 98, 99]) \<and>
      take_bytes 4 (drop (length bits mod 8) bits) = Some (check, bits') \<and>
      be32 check = adler32 [97, 98, 99]"
    by blast
  note u = payload_is_inflated_as_zlib_stream[where fs=10 and f="?g" and fn="''Maps/DM-X.ut2.uz2''"
      and sz=0 and h="[]" and chunks=0 and files="?fs" and bs="?g" and e=ZlibError
      and skip_weird=True]
  from u have "snd (decompress_loop ''Maps/DM-X.ut2.uz2'' 10 ?g 0 [] 0) = Inl ZlibError"
    by (simp add: l zlib_stream_raw_deflate)
  with u uz2_name have c: "snd (check_one_file ?fs ''Maps/DM-X.ut2.uz2'' True) = Inl ZlibError"
    by simp
  from a b c show ?thesis by blast
qed

text \<open>
  C4. When the loop reaches a chunk header that declares more payload than the
  file still holds, \<open>check_one_file\<close> logs the unexpected end of file and
  returns \<open>(rfn, None, None)\<close>: no digest and no exception. The chunks before
  it are valid, so that the loop reaches that header. In particular a container
  of valid chunks that has lost its last byte, a byte of the last payload, ends
  so. \<open>scan_directory\<close> goes on to the next name after such a result without
  touching the database.
\<close>

theorem truncated_payload_gives_no_hash:
  assumes "endswith (casefold fn) ''.uz2''" and "\<forall>c \<in> set cs. valid_chunk c"
  shows "(a < 2 ^ 32 \<and> b < 2 ^ 32 \<and> length q < a \<and>
          fs fn = Some (File (container cs @ le_bytes 4 a @ le_bytes 4 b @ q)) \<longrightarrow>
            snd (check_one_file fs fn skip_weird) = Inr (basename (take (length fn - 4) fn), None, None) \<and>
            UnexpectedEOF fn (length cs) \<in> set (fst (check_one_file fs fn skip_weird))) \<and>
         (cs \<noteq> [] \<and> fs fn = Some (File (butlast (container cs))) \<longrightarrow>
            snd (check_one_file fs fn skip_weird) = Inr (basename (take (length fn - 4) fn), None, None) \<and>
            UnexpectedEOF fn (length cs - 1) \<in> set (fst (check_one_file fs fn skip_weird))) \<and>
         (isfile fs (join fp n) \<and> snd (check_one_file fs (join fp n) True) = Inr (r, None, None) \<longrightarrow>
            snd (scan_loop fs fp (n # ns) rfn db) = snd (scan_loop fs fp ns (Some r) db))"
proof -
  have short: "snd (check_one_file fs fn skip_weird) = Inr (basename (take (length fn - 4) fn), None, None) \<and>
        UnexpectedEOF fn (length ds) \<in> set (fst (check_one_file fs fn skip_weird))"
    if v: "\<forall>c \<in> set ds. valid_chunk c" and s: "a' < 2 ^ 32" "b' < 2 ^ 32" "length q' < a'"
      and f: "fs fn = Some (File (container ds @ le_bytes 4 a' @ le_bytes 4 b' @ q'))"
    for ds a' b' q'
  proof -
    let ?rest = "le_bytes 4 a' @ le_bytes 4 b' @ q'"
    have "decompress_loop fn (int (length (container ds @ ?rest))) (container ds @ ?rest) 0 [] 0 =
      (concat (map (\<lambda>c. validate_chunk fn (length (snd c)) (fst c)) ds) @
         validate_chunk fn a' b' @ [UnexpectedEOF fn (length ds)], Inr None)"
      by (subst decompress_loop_valid_prefix[OF v, of _ "int (length ?rest)"])
         (simp_all add: decompress_loop_short_payload[OF _ s] length_le_bytes)
    then show ?thesis
      by (simp add: check_one_file_uz2[where fs=fs, OF assms(1) f])
  qed
  have trunc: "snd (check_one_file fs fn skip_weird) = Inr (basename (take (length fn - 4) fn), None, None) \<and>
        UnexpectedEOF fn (length cs - 1) \<in> set (fst (check_one_file fs fn skip_weird))"
    if ne: "cs \<noteq> []" and f: "fs fn = Some (File (butlast (container cs)))"
  proof -
    from ne obtain ds us p where cs: "cs = ds @ [(us, p)]"
      by (cases cs rule: rev_cases) auto
    from assms(2) cs have v: "valid_chunk (us, p)" and vs: "\<forall>c \<in> set ds. valid_chunk c" by simp_all
    from v have b: "us < 2 ^ 32" "length p < 2 ^ 32" by (simp_all add: valid_chunk_def)
    have "p \<noteq> []" using valid_chunk_nonempty[OF v] by simp
    then have l: "length (butlast p) < length p" by simp
    have f': "fs fn = Some (File (container ds @ le_bytes 4 (length p) @ le_bytes 4 us @ butlast p))"
      using f by (simp add: cs butlast_container[OF v])
    from short[OF vs b(2) b(1) l f'] show ?thesis by (simp add: cs)
  qed
  show ?thesis
    using short[OF assms(2)] trunc scan_loop_no_hash[of fs fp n r None ns rfn db] by blast
qed

text \<open>
  A container of one chunk, the stored zlib stream of \<open>abc\<close>: without its last
  byte, and followed by a second chunk that declares 8 bytes and has 3.
\<close>

theorem truncated_payload_gives_no_hash_witness:
  "snd (check_one_file
      (\<lambda>p. if p = ''Maps/DM-X.ut2.uz2''
           then Some (File (butlast (container
             [(3, [120, 1, 1, 3, 0, 252, 255, 97, 98, 99, 2, 77, 1, 39])])))
           else None)
      ''Maps/DM-X.ut2.uz2'' True)
   = Inr (''DM-X.ut2'', None, None)
   \<and> butlast (container [(3, [120, 1, 1, 3, 0, 252, 255, 97, 98, 99, 2, 77, 1, 39])])
     = [14, 0, 0, 0, 3, 0, 0, 0, 120, 1, 1, 3, 0, 252, 255, 97, 98, 99, 2, 77, 1]
   \<and> snd (check_one_file
      (\<lambda>p. if p = ''Maps/DM-X.ut2.uz2''
           then Some (File (container [(3, [120, 1, 1, 3, 0, 252, 255, 97, 98, 99, 2, 77, 1, 39])]
                  @ le_bytes 4 8 @ le_bytes 4 0 @ [120, 156, 3]))
           else None)
      ''Maps/DM-X.ut2.uz2'' True)
   = Inr (''DM-X.ut2'', None, None)
   \<and> snd (scan_loop
      (\<lambda>p. if p = ''Maps/DM-X.ut2.uz2''
           then Some (File (butlast (container
             [(3, [120, 1, 1, 3, 0, 252, 255, 97, 98, 99, 2, 77, 1, 39])])))
           else None)
      ''Maps'' [''DM-X.ut2.uz2''] None (connect (Some [])))
   = Inr (connect (Some []))"
proof -
  let ?cs = "[(3 :: nat, [120, 1, 1, 3, 0, 252, 255, 97, 98, 99, 2, 77, 1, 39 :: byte])]"
  let ?fs = "\<lambda>p. if p = ''Maps/DM-X.ut2.uz2'' then Some (File (butlast (container ?cs))) else None"
  let ?fs2 = "\<lambda>p. if p = ''Maps/DM-X.ut2.uz2''
      then Some (File (container ?cs @ le_bytes 4 8 @ le_bytes 4 0 @ [120, 156, 3])) else None"
  have f: "?fs ''Maps/DM-X.ut2.uz2'' = Some (File (butlast (container ?cs)))" by simp
  have f2: "?fs2 ''Maps/DM-X.ut2.uz2'' =
      Some (File (container ?cs @ le_bytes 4 8 @ le_bytes 4 0 @ [120, 156, 3]))" by simp
  have v: "\<forall>c \<in> set ?cs. valid_chunk c"
    using valid_chunk_abc by simp
  have i: "isfile ?fs (join ''Maps'' ''DM-X.ut2.uz2'')"
    by (simp add: join_maps isfile_def)
  note t = truncated_payload_gives_no_hash[where fs="?fs" and cs="?cs" and skip_weird=True
      and a=8 and b=0 and q="[120, 156, 3]" and fp="''Maps''" and n="''DM-X.ut2.uz2''"
      and r="''DM-X.ut2''" and ns="[]" and rfn=None and db="connect (Some [])", OF uz2_name v]
  from t f
  have 1: "snd (check_one_file ?fs ''Maps/DM-X.ut2.uz2'' True)
      = Inr (basename (take (length ''Maps/DM-X.ut2.uz2'' - 4) ''Maps/DM-X.ut2.uz2''), None, None)"
    by blast
  then have 1: "snd (check_one_file ?fs ''Maps/DM-X.ut2.uz2'' True) = Inr (''DM-X.ut2'', None, None)"
    by (simp only: uz2_basename)
  from t i 1 have 3: "snd (scan_loop ?fs ''Maps'' [''DM-X.ut2.uz2''] None (connect (Some [])))
      = snd (scan_loop ?fs ''Maps'' [] (Some ''DM-X.ut2'') (connect (Some [])))"
    unfolding join_maps by blast
  from truncated_payload_gives_no_hash[where fs="?fs2" and cs="?cs" and skip_weird=True
      and a=8 and b=0 and q="[120, 156, 3]" and fp="[]" and n="[]" and r="[]" and ns="[]"
      and rfn=None and db="connect None", OF uz2_name v] f2
  have "snd (check_one_file ?fs2 ''Maps/DM-X.ut2.uz2'' True)
      = Inr (basename (take (length ''Maps/DM-X.ut2.uz2'' - 4) ''Maps/DM-X.ut2.uz2''), None, None)"
    by simp
  then have 2: "snd (check_one_file ?fs2 ''Maps/DM-X.ut2.uz2'' True) = Inr (''DM-X.ut2'', None, None)"
    by (simp only: uz2_basename)
  have "butlast (container ?cs)
     = [14, 0, 0, 0, 3, 0, 0, 0, 120, 1, 1, 3, 0, 252, 255, 97, 98, 99, 2, 77, 1]"
    by (simp add: container_def chunk_bytes_def le_bytes_4)
  with 1 2 3 show ?thesis by simp
qed

text \<open>
  C5. For a container file whose chunks are all valid (each payload is
  accepted by \<open>zlib.decompress\<close>), the digest that \<open>check_one_file\<close> returns,
  computed by feeding the chunks one after another to one hash object, is the
  MD5 digest of the concatenation of the chunks decompressed one by one; the
  size returned is the sum of the declared uncompressed sizes. No bound on the
  sizes is needed.
\<close>

theorem streaming_digest_is_digest_of_concatenation:
  assumes "endswith (casefold fn) ''.uz2''"
    and "fs fn = Some (File (container cs))"
    and "\<forall>c \<in> set cs. valid_chunk c"
  shows "snd (check_one_file fs fn skip_weird) =
     Inr (basename (take (length fn - 4) fn), Some (sum_list (map fst cs)),
          Some (md5_hexdigest (concat (map inflated cs))))"
  by (simp add: check_one_file_uz2[where fs=fs and bs="container cs", OF assms(1,2)] decompress_loop_container[OF assms(3)])

text \<open>
  Two chunks: the stored zlib stream of \<open>abc\<close> and the zlib stream of the empty
  string.
\<close>

theorem streaming_digest_is_digest_of_concatenation_witness:
  "snd (check_one_file
      (\<lambda>p. if p = ''Maps/DM-X.ut2.uz2''
           then Some (File (container
             [(3, [120, 1, 1, 3, 0, 252, 255, 97, 98, 99, 2, 77, 1, 39]),
              (0, [120, 156, 3, 0, 0, 0, 0, 1])]))
           else None)
      ''Maps/DM-X.ut2.uz2'' True)
   = Inr (''DM-X.ut2'', Some 3, Some (md5_hexdigest [97, 98, 99]))
   \<and> container [(3, [120, 1, 1, 3, 0, 252, 255, 97, 98, 99, 2, 77, 1, 39]),
                 (0, [120, 156, 3, 0, 0, 0, 0, 1])]
     = [14, 0, 0, 0, 3, 0, 0, 0, 120, 1, 1, 3, 0, 252, 255, 97, 98, 99, 2, 77, 1, 39,
        8, 0, 0, 0, 0, 0, 0, 0, 120, 156, 3, 0, 0, 0, 0, 1]"
proof -
  let ?cs = "[(3, [120, 1, 1, 3, 0, 252, 255, 97, 98, 99, 2, 77, 1, 39]),
              (0 :: nat, [120, 156, 3, 0, 0, 0, 0, 1 :: byte])]"
  let ?fs = "\<lambda>p. if p = ''Maps/DM-X.ut2.uz2'' then Some (File (container ?cs)) else None"
  have f: "?fs ''Maps/DM-X.ut2.uz2'' = Some (File (container ?cs))" by simp
  have v: "\<forall>c \<in> set ?cs. valid_chunk c"
    using valid_chunk_abc valid_chunk_empty_data by simp
  from streaming_digest_is_digest_of_concatenation[where fs="?fs" and cs="?cs" and skip_weird=True,
      OF uz2_name f v]
  have "snd (check_one_file ?fs ''Maps/DM-X.ut2.uz2'' True)
      = Inr (''DM-X.ut2'', Some 3, Some (md5_hexdigest [97, 98, 99]))"
    by (simp only: uz2_basename) (simp add: inflated_abc inflated_empty_data)
  moreover have "container ?cs
     = [14, 0, 0, 0, 3, 0, 0, 0, 120, 1, 1, 3, 0, 252, 255, 97, 98, 99, 2, 77, 1, 39,
        8, 0, 0, 0, 0, 0, 0, 0, 120, 156, 3, 0, 0, 0, 0, 1]"
    by (simp add: container_def chunk_bytes_def le_bytes_4)
  ultimately show ?thesis by simp
qed

text \<open>
  C6. The claim holds for a file that \<open>check_one_file\<close> gives up on by
  returning \<open>(rfn, None, None)\<close>, and it fails for an exception: the handler
  in \<open>scan_directory\<close> formats the variable \<open>rfn\<close>, which is bound only once a
  call of \<open>check_one_file\<close> has returned. In a directory whose first file has
  a chunk header with the compressed size 0, \<open>zlib.error\<close> is raised for that
  file, the handler raises \<open>UnboundLocalError\<close>, and the scan ends there: the
  second file is not looked at and nothing is committed. With the two names
  listed the other way round the scan goes on, and the failure is logged under
  the name of the file before.
\<close>

theorem first_file_exception_aborts_scan:
  "scan_directory
     (\<lambda>p. if p = ''Maps'' then Some (Dir 4096 [''DM-A.ut2.uz2'', ''DM-B.ut2''])
          else if p = ''Maps/DM-A.ut2.uz2'' then Some (File [0, 0, 0, 0, 0, 0, 0, 0])
          else if p = ''Maps/DM-B.ut2'' then Some (File [97, 98, 99])
          else None)
     ''Maps''
     \<lparr>disk = Some [], view = Some [], in_transaction = False, count = 1, force_casefold = False\<rparr>
   = ([CompressedFile ''Maps/DM-A.ut2.uz2'', ZeroCompressed ''Maps/DM-A.ut2.uz2'' 0],
      Inl UnboundLocalError)
   \<and>
   scan_directory
     (\<lambda>p. if p = ''Maps'' then Some (Dir 4096 [''DM-B.ut2'', ''DM-A.ut2.uz2''])
          else if p = ''Maps/DM-A.ut2.uz2'' then Some (File [0, 0, 0, 0, 0, 0, 0, 0])
          else if p = ''Maps/DM-B.ut2'' then Some (File [97, 98, 99])
          else None)
     ''Maps''
     \<lparr>disk = Some [], view = Some [], in_transaction = False, count = 1, force_casefold = False\<rparr>
   = ([Hashed ''DM-B.ut2'' 3 (md5_hexdigest [97, 98, 99]),
       CompressedFile ''Maps/DM-A.ut2.uz2'', ZeroCompressed ''Maps/DM-A.ut2.uz2'' 0,
       ErrorParsing ''DM-B.ut2'', NoHash ''DM-A.ut2.uz2''],
      Inr \<lparr>disk = Some [\<lparr>row_id = 1, row_filename = ''DM-B.ut2'', row_size = 3,
                             row_md5 = md5_hexdigest [97, 98, 99]\<rparr>],
            view = Some [\<lparr>row_id = 1, row_filename = ''DM-B.ut2'', row_size = 3,
                             row_md5 = md5_hexdigest [97, 98, 99]\<rparr>],
            in_transaction = False, count = 2, force_casefold = False\<rparr>)"
proof -
  let ?fs1 = "\<lambda>p. if p = ''Maps'' then Some (Dir 4096 [''DM-A.ut2.uz2'', ''DM-B.ut2''])
          else if p = ''Maps/DM-A.ut2.uz2'' then Some (File [0, 0, 0, 0, 0, 0, 0, 0 :: byte])
          else if p = ''Maps/DM-B.ut2'' then Some (File [97, 98, 99])
          else None"
  let ?fs2 = "\<lambda>p. if p = ''Maps'' then Some (Dir 4096 [''DM-B.ut2'', ''DM-A.ut2.uz2''])
          else if p = ''Maps/DM-A.ut2.uz2'' then Some (File [0, 0, 0, 0, 0, 0, 0, 0 :: byte])
          else if p = ''Maps/DM-B.ut2'' then Some (File [97, 98, 99])
          else None"
  have a1: "check_one_file ?fs1 ''Maps/DM-A.ut2.uz2'' True
     = ([CompressedFile ''Maps/DM-A.ut2.uz2'', ZeroCompressed ''Maps/DM-A.ut2.uz2'' 0], Inl ZlibError)"
    by (rule check_zero_header) simp
  have a2: "check_one_file ?fs2 ''Maps/DM-A.ut2.uz2'' True
     = ([CompressedFile ''Maps/DM-A.ut2.uz2'', ZeroCompressed ''Maps/DM-A.ut2.uz2'' 0], Inl ZlibError)"
    by (rule check_zero_header) simp
  have b2: "check_one_file ?fs2 ''Maps/DM-B.ut2'' True
     = ([], Inr (''DM-B.ut2'', Some 3, Some (md5_hexdigest [97, 98, 99])))"
    by (rule check_plain_abc) simp
  have 1: "scan_directory ?fs1 ''Maps''
     \<lparr>disk = Some [], view = Some [], in_transaction = False, count = 1, force_casefold = False\<rparr>
   = ([CompressedFile ''Maps/DM-A.ut2.uz2'', ZeroCompressed ''Maps/DM-A.ut2.uz2'' 0],
      Inl UnboundLocalError)"
    by (simp add: scan_directory_def listdir_def plain_names isfile_def a1 Let_def)
  have 2: "scan_directory ?fs2 ''Maps''
     \<lparr>disk = Some [], view = Some [], in_transaction = False, count = 1, force_casefold = False\<rparr>
   = ([Hashed ''DM-B.ut2'' 3 (md5_hexdigest [97, 98, 99]),
       CompressedFile ''Maps/DM-A.ut2.uz2'', ZeroCompressed ''Maps/DM-A.ut2.uz2'' 0,
       ErrorParsing ''DM-B.ut2'', NoHash ''DM-A.ut2.uz2''],
      Inr \<lparr>disk = Some [\<lparr>row_id = 1, row_filename = ''DM-B.ut2'', row_size = 3,
                             row_md5 = md5_hexdigest [97, 98, 99]\<rparr>],
            view = Some [\<lparr>row_id = 1, row_filename = ''DM-B.ut2'', row_size = 3,
                             row_md5 = md5_hexdigest [97, 98, 99]\<rparr>],
            in_transaction = False, count = 2, force_casefold = False\<rparr>)"
    by (simp add: scan_directory_def listdir_def plain_names isfile_def a2 b2 Let_def
        put_def exec_insert_def md5_hexdigest_length PERIODICALLY_COMMIT_def commit_def)
  from 1 2 show ?thesis by (rule conjI)
qed

text \<open>
  C10. The name that \<open>check_one_file\<close> returns is the base name of the path,
  taken after the last four characters are cut off when the path ends in
  \<open>.uz2\<close> in any letter case; it holds no path separator. The rows that
  \<open>scan_directory\<close> inserts carry these names of the listed entries, folded to
  lower case when the database is configured so, and no separator either.
\<close>

theorem stored_names_are_basenames:
  "(snd (check_one_file fs fn skip_weird) = Inr (rfn, sz, dg) \<longrightarrow>
      rfn = stored_name fn \<and> CHR ''/'' \<notin> set rfn) \<and>
   stored_name fn = basename (if endswith (casefold fn) ''.uz2'' then take (length fn - 4) fn else fn) \<and>
   (scan_directory fs fp db = (lg, Inr db') \<and> view db = Some t \<longrightarrow>
      (\<exists>names new. listdir fs fp = Inr names \<and> view db' = Some (t @ new) \<and>
         (\<forall>r \<in> set new. CHR ''/'' \<notin> set (row_filename r) \<and>
            (\<exists>n \<in> set names.
               row_filename r = (if force_casefold db then casefold (stored_name (join fp n))
                                 else stored_name (join fp n))))))"
proof (intro conjI impI)
  assume a: "snd (check_one_file fs fn skip_weird) = Inr (rfn, sz, dg)"
  from check_one_file_name[OF a] show "rfn = stored_name fn" by (simp add: stored_name_def)
  then show "CHR ''/'' \<notin> set rfn" by (simp add: stored_name_def basename_no_separator)
next
  show "stored_name fn = basename (if endswith (casefold fn) ''.uz2'' then take (length fn - 4) fn else fn)"
    by (simp add: stored_name_def)
next
  assume a: "scan_directory fs fp db = (lg, Inr db') \<and> view db = Some t"
  then obtain names where l: "listdir fs fp = Inr names"
    by (cases "listdir fs fp") (auto simp: scan_directory_def)
  obtain lg1 r1 where s: "scan_loop fs fp names None db = (lg1, r1)"
    by (cases "scan_loop fs fp names None db")
  from a l s obtain db1 where r1: "r1 = Inr db1" and d: "db' = commit db1"
    by (cases r1) (auto simp: scan_directory_def)
  from scan_loop_rows[OF s[unfolded r1]] a obtain new where
    n: "view db1 = Some (t @ new)"
      "\<forall>r \<in> set new. \<exists>n \<in> set names.
        row_filename r = (if force_casefold db then casefold (stored_name (join fp n))
                          else stored_name (join fp n))"
    by blast
  have "\<forall>r \<in> set new. CHR ''/'' \<notin> set (row_filename r)"
  proof
    fix r assume "r \<in> set new"
    with n(2) obtain m where "row_filename r = (if force_casefold db then casefold (stored_name (join fp m))
                          else stored_name (join fp m))" by blast
    then show "CHR ''/'' \<notin> set (row_filename r)"
      using basename_no_separator casefold_no_separator by (simp add: stored_name_def)
  qed
  with n l d show "\<exists>names new. listdir fs fp = Inr names \<and> view db' = Some (t @ new) \<and>
         (\<forall>r \<in> set new. CHR ''/'' \<notin> set (row_filename r) \<and>
            (\<exists>n \<in> set names.
               row_filename r = (if force_casefold db then casefold (stored_name (join fp n))
                                 else stored_name (join fp n))))"
    by (auto simp: commit_def)
qed

text \<open>A directory with a container and a plain file, scanned into a case-folding database.\<close>

theorem stored_names_are_basenames_witness:
  "scan_directory
     (\<lambda>p. if p = ''Maps'' then Some (Dir 4096 [''DM-X.ut2.uz2'', ''DM-B.ut2''])
          else if p = ''Maps/DM-X.ut2.uz2''
            then Some (File (container [(3, [120, 1, 1, 3, 0, 252, 255, 97, 98, 99, 2, 77, 1, 39])]))
          else if p = ''Maps/DM-B.ut2'' then Some (File [97, 98, 99])
          else None)
     ''Maps''
     \<lparr>disk = Some [], view = Some [], in_transaction = False, count = 1, force_casefold = True\<rparr>
   = ([CompressedFile ''Maps/DM-X.ut2.uz2'', Hashed ''DM-X.ut2'' 3 (md5_hexdigest [97, 98, 99]),
       Hashed ''DM-B.ut2'' 3 (md5_hexdigest [97, 98, 99])],
      Inr \<lparr>disk = Some [\<lparr>row_id = 1, row_filename = ''dm-x.ut2'', row_size = 3,
                             row_md5 = md5_hexdigest [97, 98, 99]\<rparr>,
                          \<lparr>row_id = 2, row_filename = ''dm-b.ut2'', row_size = 3,
                             row_md5 = md5_hexdigest [97, 98, 99]\<rparr>],
            view = Some [\<lparr>row_id = 1, row_filename = ''dm-x.ut2'', row_size = 3,
                             row_md5 = md5_hexdigest [97, 98, 99]\<rparr>,
                          \<lparr>row_id = 2, row_filename = ''dm-b.ut2'', row_size = 3,
                             row_md5 = md5_hexdigest [97, 98, 99]\<rparr>],
            in_transaction = False, count = 3, force_casefold = True\<rparr>)
   \<and> stored_name ''Maps/DM-X.ut2.uz2'' = ''DM-X.ut2''
   \<and> CHR ''/'' \<notin> set ''DM-X.ut2''"
proof -
  let ?fs = "\<lambda>p. if p = ''Maps'' then Some (Dir 4096 [''DM-X.ut2.uz2'', ''DM-B.ut2''])
          else if p = ''Maps/DM-X.ut2.uz2''
            then Some (File (container [(3, [120, 1, 1, 3, 0, 252, 255, 97, 98, 99, 2, 77, 1, 39 :: byte])]))
          else if p = ''Maps/DM-B.ut2'' then Some (File [97, 98, 99])
          else None"
  let ?db = "\<lparr>disk = Some [], view = Some [], in_transaction = False, count = 1, force_casefold = True\<rparr>"
  let ?lg = "[CompressedFile ''Maps/DM-X.ut2.uz2'', Hashed ''DM-X.ut2'' 3 (md5_hexdigest [97, 98, 99]),
       Hashed ''DM-B.ut2'' 3 (md5_hexdigest [97, 98, 99])]"
  let ?db1 = "\<lparr>disk = Some [\<lparr>row_id = 1, row_filename = ''dm-x.ut2'', row_size = 3,
                             row_md5 = md5_hexdigest [97, 98, 99]\<rparr>,
                          \<lparr>row_id = 2, row_filename = ''dm-b.ut2'', row_size = 3,
                             row_md5 = md5_hexdigest [97, 98, 99]\<rparr>],
            view = Some [\<lparr>row_id = 1, row_filename = ''dm-x.ut2'', row_size = 3,
                             row_md5 = md5_hexdigest [97, 98, 99]\<rparr>,
                          \<lparr>row_id = 2, row_filename = ''dm-b.ut2'', row_size = 3,
                             row_md5 = md5_hexdigest [97, 98, 99]\<rparr>],
            in_transaction = False, count = 3, force_casefold = True\<rparr>"
  have a: "check_one_file ?fs ''Maps/DM-X.ut2.uz2'' True
     = ([CompressedFile ''Maps/DM-X.ut2.uz2''],
        Inr (''DM-X.ut2'', Some 3, Some (md5_hexdigest [97, 98, 99])))"
    by (rule check_container_abc) simp
  have b: "check_one_file ?fs ''Maps/DM-B.ut2'' True
     = ([], Inr (''DM-B.ut2'', Some 3, Some (md5_hexdigest [97, 98, 99])))"
    by (rule check_plain_abc) simp
  have c: "casefold ''DM-X.ut2'' = ''dm-x.ut2''" "casefold ''DM-B.ut2'' = ''dm-b.ut2''"
    by (simp_all add: casefold_def casefold_char_def char_of_def bit_Suc_0_iff)
  have s: "scan_directory ?fs ''Maps'' ?db
   = ([CompressedFile ''Maps/DM-X.ut2.uz2'', Hashed ''DM-X.ut2'' 3 (md5_hexdigest [97, 98, 99]),
       Hashed ''DM-B.ut2'' 3 (md5_hexdigest [97, 98, 99])],
      Inr \<lparr>disk = Some [\<lparr>row_id = 1, row_filename = ''dm-x.ut2'', row_size = 3,
                             row_md5 = md5_hexdigest [97, 98, 99]\<rparr>,
                          \<lparr>row_id = 2, row_filename = ''dm-b.ut2'', row_size = 3,
                             row_md5 = md5_hexdigest [97, 98, 99]\<rparr>],
            view = Some [\<lparr>row_id = 1, row_filename = ''dm-x.ut2'', row_size = 3,
                             row_md5 = md5_hexdigest [97, 98, 99]\<rparr>,
                          \<lparr>row_id = 2, row_filename = ''dm-b.ut2'', row_size = 3,
                             row_md5 = md5_hexdigest [97, 98, 99]\<rparr>],
            in_transaction = False, count = 3, force_casefold = True\<rparr>)"
    by (simp add: scan_directory_def listdir_def plain_names join_maps isfile_def a b c Let_def
        put_def exec_insert_def md5_hexdigest_length PERIODICALLY_COMMIT_def commit_def)
  have c1: "snd (check_one_file ?fs ''Maps/DM-X.ut2.uz2'' True)
      = Inr (''DM-X.ut2'', Some 3, Some (md5_hexdigest [97, 98, 99]))"
    unfolding a by simp
  have c3: "scan_directory ?fs ''Maps'' ?db = (?lg, Inr ?db1) \<and> view ?db = Some []"
    unfolding s by simp
  note t = stored_names_are_basenames[where fs="?fs" and fn="''Maps/DM-X.ut2.uz2''"
      and skip_weird=True and rfn="''DM-X.ut2''" and sz="Some 3"
      and dg="Some (md5_hexdigest [97, 98, 99])" and fp="''Maps''" and db="?db" and t="[]"
      and lg="?lg" and db'="?db1"]
  note n = t[THEN conjunct1, THEN mp, OF c1]
  note m = t[THEN conjunct2, THEN conjunct2, THEN mp, OF c3]
  have "stored_name ''Maps/DM-X.ut2.uz2'' = ''DM-X.ut2''"
    using n[THEN conjunct1] by (rule sym)
  moreover note n[THEN conjunct2]
  moreover note s
  ultimately show ?thesis by (intro conjI)
qed


end
